theory Spec2Isabelle
  imports Complex_Main "HOL-Library.Multiset" "HOL-Library.List_Lexorder"
    "HOL-Library.Product_Lexorder"
begin

section \<open>Card model (poker\_calculator.py, classes Card and Deck)\<close>

text \<open>
  A \<open>Card\<close> is built from a rank symbol and a suit symbol. The constructor looks the rank
  up in \<open>RANK_VALUES\<close> (a \<open>KeyError\<close> for anything outside \<open>RANKS\<close>), so every card that
  exists carries one of the thirteen ranks; the suits are the four symbols of \<open>SUITS\<close>
  (spade, heart, diamond, club, in this order). Equality is by rank and suit.
\<close>

datatype rank = R2 | R3 | R4 | R5 | R6 | R7 | R8 | R9 | R10 | RJ | RQ | RK | RA

datatype suit = Spade | Heart | Diamond | Club

record card =
  rank :: rank
  suit :: suit

definition SUITS :: "suit list" where
  "SUITS = [Spade, Heart, Diamond, Club]"

definition RANKS :: "rank list" where
  "RANKS = [R2, R3, R4, R5, R6, R7, R8, R9, R10, RJ, RQ, RK, RA]"

text \<open>\<open>RANK_VALUES = {rank: i for i, rank in enumerate(RANKS)}\<close>\<close>

fun RANK_VALUES :: "rank \<Rightarrow> int" where
  "RANK_VALUES R2 = 0"
| "RANK_VALUES R3 = 1"
| "RANK_VALUES R4 = 2"
| "RANK_VALUES R5 = 3"
| "RANK_VALUES R6 = 4"
| "RANK_VALUES R7 = 5"
| "RANK_VALUES R8 = 6"
| "RANK_VALUES R9 = 7"
| "RANK_VALUES R10 = 8"
| "RANK_VALUES RJ = 9"
| "RANK_VALUES RQ = 10"
| "RANK_VALUES RK = 11"
| "RANK_VALUES RA = 12"

text \<open>The attribute \<open>value\<close> that \<open>Card.__init__\<close> stores.\<close>

definition "value" :: "card \<Rightarrow> int" where
  "value c = RANK_VALUES (rank c)"

definition Card :: "rank \<Rightarrow> suit \<Rightarrow> card" where
  "Card r s = \<lparr>rank = r, suit = s\<rparr>"

text \<open>The exceptions the modelled code can raise.\<close>

datatype error = IndexError | ValueError | ZeroDivisionError

text \<open>
  A \<open>Deck\<close> object has the single field \<open>cards\<close>.
  \<open>Deck.__init__\<close>: \<open>[Card(rank, suit) for suit in Card.SUITS for rank in Card.RANKS]\<close>.
\<close>

type_synonym deck = "card list"

definition Deck :: deck where
  "Deck = concat (map (\<lambda>s. map (\<lambda>r. Card r s) RANKS) SUITS)"

text \<open>
  \<open>Deck.remove_cards\<close>: for every card of the argument, in turn, the deck is filtered
  down to the cards that differ from it in rank or suit.
\<close>

definition remove_card :: "card \<Rightarrow> deck \<Rightarrow> deck" where
  "remove_card crd d = filter (\<lambda>c. \<not> (rank c = rank crd \<and> suit c = suit crd)) d"

definition remove_cards :: "card list \<Rightarrow> deck \<Rightarrow> deck" where
  "remove_cards cards d = fold remove_card cards d"

text \<open>
  The source of randomness is an explicit stream of naturals. \<open>random.sample\<close> belongs to
  Python's standard library; it is modelled by its documented contract: it raises
  \<open>ValueError\<close> when the sample is negative or larger than the population, and otherwise
  returns \<open>k\<close> elements taken from pairwise different positions of the population, which
  it leaves unchanged. Each pick reads one number of the stream and selects a position
  among those still unpicked.
\<close>

type_synonym rng = "nat \<Rightarrow> nat"

fun sample_pool :: "rng \<Rightarrow> 'a list \<Rightarrow> nat \<Rightarrow> 'a list \<times> rng" where
  "sample_pool g pool 0 = ([], g)"
| "sample_pool g pool (Suc k) =
     (let j = g 0 mod length pool;
          (rest, g') = sample_pool (\<lambda>i. g (Suc i)) (take j pool @ drop (Suc j) pool) k
      in (pool ! j # rest, g'))"

definition sample :: "rng \<Rightarrow> 'a list \<Rightarrow> int \<Rightarrow> error + ('a list \<times> rng)" where
  "sample g population k =
     (if k < 0 \<or> int (length population) < k then Inl ValueError
      else Inr (sample_pool g population (nat k)))"

text \<open>
  \<open>Deck.draw\<close>: \<open>return random.sample(self.cards, n)\<close>. The deck is passed in and handed
  back, so that what the call does to \<open>self.cards\<close> is part of the result.
\<close>

definition draw :: "rng \<Rightarrow> deck \<Rightarrow> int \<Rightarrow> error + (card list \<times> deck \<times> rng)" where
  "draw g d n =
     (case sample g d n of
        Inl e \<Rightarrow> Inl e
      | Inr (drawn, g') \<Rightarrow> Inr (drawn, d, g'))"

section \<open>Hand evaluator (class HandEvaluator)\<close>

text \<open>A hand ranking is the tuple (hand type, key card values).\<close>

type_synonym hand_rank = "int \<times> int list"

text \<open>\<open>xs[0]\<close>: the first element, \<open>IndexError\<close> on the empty list.\<close>

definition first :: "'a list \<Rightarrow> error + 'a" where
  "first xs = (case xs of [] \<Rightarrow> Inl IndexError | x # _ \<Rightarrow> Inr x)"

text \<open>
  \<open>collections.Counter\<close>: a dictionary from each element to its number of occurrences,
  whose items come in the order in which the keys were first seen.
\<close>

fun counter_add :: "int \<Rightarrow> (int \<times> nat) list \<Rightarrow> (int \<times> nat) list" where
  "counter_add r [] = [(r, 1)]"
| "counter_add r ((k, n) # kvs) =
     (if k = r then (k, n + 1) # kvs else (k, n) # counter_add r kvs)"

definition Counter :: "int list \<Rightarrow> (int \<times> nat) list" where
  "Counter xs = fold counter_add xs []"

text \<open>\<open>sorted(ranks, reverse=True)\<close>\<close>

definition sorted_reverse :: "int list \<Rightarrow> int list" where
  "sorted_reverse xs = rev (sort xs)"

text \<open>
  \<open>_is_straight\<close>: sorts ascending and returns False at the first neighbouring pair whose
  difference is not 1.
\<close>

fun consecutive :: "int list \<Rightarrow> bool" where
  "consecutive (a # b # rest) = (if b - a \<noteq> 1 then False else consecutive (b # rest))"
| "consecutive _ = True"

definition is_straight :: "int list \<Rightarrow> bool" where
  "is_straight ranks = consecutive (sort ranks)"

text \<open>
  \<open>_evaluate_five_cards\<close>. The items of the counter with a given count are selected in
  the counter's order, and \<open>[...][0]\<close> is \<^const>\<open>first\<close>.
\<close>

definition ranks_with_count :: "(int \<times> nat) list \<Rightarrow> nat \<Rightarrow> int list" where
  "ranks_with_count rank_counts n = map fst (filter (\<lambda>(r, count). count = n) rank_counts)"

definition evaluate_five_cards :: "card list \<Rightarrow> error + hand_rank" where
  "evaluate_five_cards cards =
     (let ranks = map value cards;
          suits = map suit cards;
          rank_counts = Counter ranks;
          is_flush = (card (set suits) = 1);
          sorted_ranks0 = sorted_reverse ranks;
          wheel = (sorted_ranks0 = [12, 3, 2, 1, 0]);
          is_str = (if wheel then True else is_straight sorted_ranks0);
          sorted_ranks = (if wheel then [3, 2, 1, 0, -1] else sorted_ranks0)
      in if is_flush \<and> is_str \<and> sorted_ranks = [12, 11, 10, 9, 8] then Inr (9, sorted_ranks)
         else if is_flush \<and> is_str then Inr (8, sorted_ranks)
         else if 4 \<in> set (map snd rank_counts) then
           (case first (ranks_with_count rank_counts 4) of
              Inl e \<Rightarrow> Inl e
            | Inr four_rank \<Rightarrow>
                (case first (filter (\<lambda>r. r \<noteq> four_rank) ranks) of
                   Inl e \<Rightarrow> Inl e
                 | Inr kicker \<Rightarrow> Inr (7, [four_rank, kicker])))
         else if 3 \<in> set (map snd rank_counts) \<and> 2 \<in> set (map snd rank_counts) then
           (case first (ranks_with_count rank_counts 3) of
              Inl e \<Rightarrow> Inl e
            | Inr three_rank \<Rightarrow>
                (case first (ranks_with_count rank_counts 2) of
                   Inl e \<Rightarrow> Inl e
                 | Inr pair_rank \<Rightarrow> Inr (6, [three_rank, pair_rank])))
         else if is_flush then Inr (5, sorted_ranks)
         else if is_str then Inr (4, sorted_ranks)
         else if 3 \<in> set (map snd rank_counts) then
           (case first (ranks_with_count rank_counts 3) of
              Inl e \<Rightarrow> Inl e
            | Inr three_rank \<Rightarrow>
                Inr (3, three_rank # sorted_reverse (filter (\<lambda>r. r \<noteq> three_rank) ranks)))
         else
           (let pairs = ranks_with_count rank_counts 2
            in if length pairs = 2 then
                 (let pairs' = sorted_reverse pairs
                  in case first (filter (\<lambda>r. r \<notin> set pairs') ranks) of
                       Inl e \<Rightarrow> Inl e
                     | Inr kicker \<Rightarrow> Inr (2, pairs' @ [kicker]))
               else if length pairs = 1 then
                 (case first pairs of
                    Inl e \<Rightarrow> Inl e
                  | Inr pair_rank \<Rightarrow>
                      Inr (1, pair_rank # sorted_reverse (filter (\<lambda>r. r \<noteq> pair_rank) ranks)))
               else Inr (0, sorted_ranks)))"

text \<open>
  \<open>itertools.combinations(cards, r)\<close> (standard library, documented contract): the
  subsequences of length \<open>r\<close>, in lexicographic order of their positions.
\<close>

fun combinations :: "'a list \<Rightarrow> nat \<Rightarrow> 'a list list" where
  "combinations xs 0 = [[]]"
| "combinations [] (Suc k) = []"
| "combinations (x # xs) (Suc k) =
     map ((#) x) (combinations xs k) @ combinations xs (Suc k)"

text \<open>
  Python's \<open>>\<close> on lists of integers: the first position where the lists differ decides;
  if there is none, the longer list is the greater.
\<close>

fun list_gt :: "int list \<Rightarrow> int list \<Rightarrow> bool" where
  "list_gt [] ys = False"
| "list_gt (x # xs) [] = True"
| "list_gt (x # xs) (y # ys) = (if x = y then list_gt xs ys else x > y)"

text \<open>Python's \<open>>\<close> on the tuples (hand type, key cards).\<close>

definition hand_gt :: "hand_rank \<Rightarrow> hand_rank \<Rightarrow> bool" where
  "hand_gt a b = (if fst a = fst b then list_gt (snd a) (snd b) else fst a > fst b)"

text \<open>
  \<open>evaluate_hand\<close>: fewer than five cards give \<open>(0, [])\<close>; otherwise the loop over all
  combinations of five cards keeps the running best hand.
\<close>

fun best_of :: "card list list \<Rightarrow> hand_rank \<Rightarrow> error + hand_rank" where
  "best_of [] best_hand = Inr best_hand"
| "best_of (combo # rest) best_hand =
     (case evaluate_five_cards combo of
        Inl e \<Rightarrow> Inl e
      | Inr (hand_type, key_cards) \<Rightarrow>
          best_of rest
            (if hand_type > fst best_hand
                \<or> (hand_type = fst best_hand \<and> list_gt key_cards (snd best_hand))
             then (hand_type, key_cards) else best_hand))"

definition evaluate_hand :: "card list \<Rightarrow> error + hand_rank" where
  "evaluate_hand cards =
     (if length cards < 5 then Inr (0, [])
      else best_of (combinations cards 5) (0, []))"

text \<open>
  Python strings are sequences of Unicode code points; the texts of the source are
  written as the lists of their code points. \<open>str(n)\<close> of a non-negative integer is its
  decimal numeral.
\<close>

type_synonym str = "nat list"

function str_nat :: "nat \<Rightarrow> str" where
  "str_nat n = (if n < 10 then [48 + n] else str_nat (n div 10) @ [48 + n mod 10])"
  by pat_completeness auto
termination
  by (relation "measure id") auto

text \<open>
  \<open>hand_name\<close>: the table of the ten category names, \<open>names.get(hand_type, ...)\<close> with
  the text for "unknown" as the default. In the order 9 down to 0 the names read: royal
  flush, straight flush, four of a kind, full house, flush, straight, three of a kind,
  two pairs, one pair, high card.
\<close>

definition hand_name :: "int \<Rightarrow> str" where
  "hand_name hand_type =
     (if hand_type = 9 then [0x7687, 0x5BB6, 0x540C, 0x82B1, 0x987A]
      else if hand_type = 8 then [0x540C, 0x82B1, 0x987A]
      else if hand_type = 7 then [0x56DB, 0x6761]
      else if hand_type = 6 then [0x846B, 0x82A6]
      else if hand_type = 5 then [0x540C, 0x82B1]
      else if hand_type = 4 then [0x987A, 0x5B50]
      else if hand_type = 3 then [0x4E09, 0x6761]
      else if hand_type = 2 then [0x4E24, 0x5BF9]
      else if hand_type = 1 then [0x4E00, 0x5BF9]
      else if hand_type = 0 then [0x9AD8, 0x724C]
      else [0x672A, 0x77E5])"

section \<open>Equity simulation (PokerCalculator.calculate\_win\_probability)\<close>

text \<open>
  \<open>max(opponent_hands)\<close>: \<open>ValueError\<close> on the empty list, otherwise the first of the
  greatest elements (an element replaces the running maximum only when it is greater).
\<close>

definition py_max :: "hand_rank list \<Rightarrow> error + hand_rank" where
  "py_max hands =
     (case hands of
        [] \<Rightarrow> Inl ValueError
      | h # rest \<Rightarrow> Inr (fold (\<lambda>x m. if hand_gt x m then x else m) rest h))"

text \<open>
  The loop \<open>for _ in range(num_opponents)\<close> of one trial: each opponent draws two cards
  from the simulation deck, is evaluated with the full community, and the two cards are
  then removed from the deck. The drawn hole cards are returned with the hands.
\<close>

fun deal_opponents ::
  "nat \<Rightarrow> card list \<Rightarrow> deck \<Rightarrow> rng \<Rightarrow> error + (card list list \<times> hand_rank list \<times> deck \<times> rng)"
where
  "deal_opponents 0 full_community sim_deck g = Inr ([], [], sim_deck, g)"
| "deal_opponents (Suc n) full_community sim_deck g =
     (case draw g sim_deck 2 of
        Inl e \<Rightarrow> Inl e
      | Inr (opponent_hole, sim_deck1, g1) \<Rightarrow>
          (case evaluate_hand (opponent_hole @ full_community) of
             Inl e \<Rightarrow> Inl e
           | Inr opponent_hand \<Rightarrow>
               (case deal_opponents n full_community (remove_cards opponent_hole sim_deck1) g1 of
                  Inl e \<Rightarrow> Inl e
                | Inr (holes, hands, sim_deck2, g2) \<Rightarrow>
                    Inr (opponent_hole # holes, opponent_hand # hands, sim_deck2, g2))))"

text \<open>The values one pass through the body of the trial loop computes.\<close>

record trial =
  full_community :: "card list"
  my_hand :: hand_rank
  opponent_holes :: "card list list"
  opponent_hands :: "hand_rank list"
  best_opponent_hand :: hand_rank

definition run_trial ::
  "card list \<Rightarrow> card list \<Rightarrow> int \<Rightarrow> rng \<Rightarrow> error + (trial \<times> rng)"
where
  "run_trial hole_cards community_cards num_opponents g =
     (let known_cards = hole_cards @ community_cards;
          cards_needed = 5 - int (length community_cards);
          sim_deck = remove_cards known_cards Deck
      in case (if cards_needed > 0 then draw g sim_deck cards_needed
               else Inr ([], sim_deck, g)) of
           Inl e \<Rightarrow> Inl e
         | Inr (remaining_community, sim_deck1, g1) \<Rightarrow>
             (let full = community_cards @ remaining_community;
                  sim_deck2 = remove_cards remaining_community sim_deck1
              in case evaluate_hand (hole_cards @ full) of
                   Inl e \<Rightarrow> Inl e
                 | Inr mine \<Rightarrow>
                     (case deal_opponents (nat num_opponents) full sim_deck2 g1 of
                        Inl e \<Rightarrow> Inl e
                      | Inr (holes, hands, sim_deck3, g2) \<Rightarrow>
                          (case py_max hands of
                             Inl e \<Rightarrow> Inl e
                           | Inr best \<Rightarrow>
                               Inr (\<lparr>full_community = full, my_hand = mine,
                                     opponent_holes = holes, opponent_hands = hands,
                                     best_opponent_hand = best\<rparr>, g2)))))"

text \<open>The comparison at the end of a trial, on the counters (wins, ties, losses).\<close>

definition tally :: "trial \<Rightarrow> int \<times> int \<times> int \<Rightarrow> int \<times> int \<times> int" where
  "tally t counters =
     (case counters of (wins, ties, losses) \<Rightarrow>
        if hand_gt (my_hand t) (best_opponent_hand t) then (wins + 1, ties, losses)
        else if my_hand t = best_opponent_hand t then (wins, ties + 1, losses)
        else (wins, ties, losses + 1))"

text \<open>
  The loop \<open>for _ in range(num_simulations)\<close>. The number of trials that have run is
  returned with the counters.
\<close>

fun simulate ::
  "nat \<Rightarrow> card list \<Rightarrow> card list \<Rightarrow> int \<Rightarrow> int \<times> int \<times> int \<Rightarrow> rng
     \<Rightarrow> error + ((int \<times> int \<times> int) \<times> rng)"
where
  "simulate 0 hole_cards community_cards num_opponents counters g = Inr (counters, g)"
| "simulate (Suc n) hole_cards community_cards num_opponents counters g =
     (case run_trial hole_cards community_cards num_opponents g of
        Inl e \<Rightarrow> Inl e
      | Inr (t, g1) \<Rightarrow>
          simulate n hole_cards community_cards num_opponents (tally t counters) g1)"

text \<open>
  Python's \<open>/\<close> on integers yields a float: the quotient, rounded. The rounding is the
  parameter \<open>rnd\<close>; division by zero raises.
\<close>

definition true_div :: "(real \<Rightarrow> real) \<Rightarrow> int \<Rightarrow> int \<Rightarrow> error + real" where
  "true_div rnd a b =
     (if b = 0 then Inl ZeroDivisionError else Inr (rnd (real_of_int a / real_of_int b)))"

text \<open>The dictionary \<open>calculate_win_probability\<close> returns.\<close>

record equity_result =
  win_rate :: real
  tie_rate :: real
  loss_rate :: real
  simulations :: int
  current_hand :: str

text \<open>
  \<open>calculate_win_probability\<close>. The deck built before the loop is never read and is
  left out. The entries of the returned dictionary are evaluated in their order.
\<close>

definition calculate_win_probability ::
  "(real \<Rightarrow> real) \<Rightarrow> card list \<Rightarrow> card list \<Rightarrow> int \<Rightarrow> int \<Rightarrow> rng
     \<Rightarrow> error + (equity_result \<times> rng)"
where
  "calculate_win_probability rnd hole_cards community_cards num_opponents num_simulations g =
     (case simulate (nat num_simulations) hole_cards community_cards num_opponents (0, 0, 0) g of
        Inl e \<Rightarrow> Inl e
      | Inr ((wins, ties, losses), g1) \<Rightarrow>
          (case true_div rnd wins num_simulations of
             Inl e \<Rightarrow> Inl e
           | Inr wr \<Rightarrow>
          (case true_div rnd ties num_simulations of
             Inl e \<Rightarrow> Inl e
           | Inr tr \<Rightarrow>
          (case true_div rnd losses num_simulations of
             Inl e \<Rightarrow> Inl e
           | Inr lr \<Rightarrow>
          (case evaluate_hand (hole_cards @ community_cards) of
             Inl e \<Rightarrow> Inl e
           | Inr h \<Rightarrow>
               Inr (\<lparr>win_rate = wr, tie_rate = tr, loss_rate = lr,
                     simulations = num_simulations,
                     current_hand = hand_name (fst h)\<rparr>, g1))))))"

text \<open>
  \<open>get_hand_strength\<close>: with fewer than five cards the pair of \<open>-1\<close> and the text "no
  complete hand formed yet".
\<close>

definition not_complete_text :: str where
  "not_complete_text = [0x5C1A, 0x672A, 0x5F62, 0x6210, 0x5B8C, 0x6574, 0x624B, 0x724C]"

definition get_hand_strength :: "card list \<Rightarrow> card list \<Rightarrow> error + (int \<times> str)" where
  "get_hand_strength hole_cards community_cards =
     (let all_cards = hole_cards @ community_cards
      in if length all_cards \<ge> 5 then
           (case evaluate_hand all_cards of
              Inl e \<Rightarrow> Inl e
            | Inr (hand_type, _) \<Rightarrow> Inr (hand_type, hand_name hand_type))
         else Inr (-1, not_complete_text))"

section \<open>Outs (PokerCalculator.calculate\_outs)\<close>

text \<open>
  The returned dictionary; a key that a return statement does not set is \<open>None\<close>.
\<close>

record outs_result =
  outs :: int
  immediate_odds :: "real option"
  improving_cards :: "card list option"
  description :: str

text \<open>The text returned at the river: "already the river round".\<close>

definition river_text :: str where
  "river_text = [0x5DF2, 0x7ECF, 0x662F, 0x6CB3, 0x724C, 0x5708]"

text \<open>The f-string "there are \<open>{outs}\<close> out cards that can improve the hand".\<close>

definition outs_text :: "nat \<Rightarrow> str" where
  "outs_text n =
     [0x6709] @ str_nat n @ [0x5F20, 0x6F, 0x75, 0x74, 0x724C, 0x53EF, 0x4EE5, 0x6539,
       0x8FDB, 0x624B, 0x724C]"

text \<open>The loop over \<open>deck.cards\<close> that collects the improving cards.\<close>

fun collect_improving :: "card list \<Rightarrow> int \<Rightarrow> card list \<Rightarrow> error + card list" where
  "collect_improving known current_hand_type [] = Inr []"
| "collect_improving known current_hand_type (c # rest) =
     (case evaluate_hand (known @ [c]) of
        Inl e \<Rightarrow> Inl e
      | Inr (new_hand_type, _) \<Rightarrow>
          (case collect_improving known current_hand_type rest of
             Inl e \<Rightarrow> Inl e
           | Inr cs \<Rightarrow> Inr (if new_hand_type > current_hand_type then c # cs else cs)))"

definition calculate_outs ::
  "(real \<Rightarrow> real) \<Rightarrow> card list \<Rightarrow> card list \<Rightarrow> error + outs_result"
where
  "calculate_outs rnd hole_cards community_cards =
     (if length community_cards \<ge> 5 then
        Inr \<lparr>outs = 0, immediate_odds = None, improving_cards = None,
             description = river_text\<rparr>
      else
        (let known_cards = hole_cards @ community_cards;
             d = remove_cards known_cards Deck
         in case evaluate_hand (hole_cards @ community_cards) of
              Inl e \<Rightarrow> Inl e
            | Inr (current_hand_type, _) \<Rightarrow>
                (case collect_improving (hole_cards @ community_cards) current_hand_type d of
                   Inl e \<Rightarrow> Inl e
                 | Inr improving \<Rightarrow>
                     (let n = length improving;
                          remaining_cards = length d
                      in case (if remaining_cards > 0
                               then true_div rnd (int n) (int remaining_cards)
                               else Inr 0) of
                           Inl e \<Rightarrow> Inl e
                         | Inr odds \<Rightarrow>
                             Inr \<lparr>outs = int n, immediate_odds = Some odds,
                                  improving_cards = Some (take 10 improving),
                                  description = outs_text n\<rparr>))))"

section \<open>Comparisons and the rank counter\<close>

text \<open>
  Python's comparison of the rankings is the lexicographic order of HOL; the counter
  maps every rank of the list to its number of occurrences.
\<close>

lemma evaluate_hand_short: "length cards < 5 \<Longrightarrow> evaluate_hand cards = Inr (0, [])"
  by (simp add: evaluate_hand_def)

lemma list_gt_less: "list_gt xs ys \<longleftrightarrow> ys < xs"
  by (induction xs ys rule: list_gt.induct) auto

lemma hand_gt_less: "hand_gt a b \<longleftrightarrow> b < a"
  by (cases a; cases b) (auto simp: hand_gt_def list_gt_less)

lemma Counter_snoc: "Counter (xs @ [x]) = counter_add x (Counter xs)"
  by (simp add: Counter_def)

lemma counter_add_keys:
  "map fst (counter_add r kvs) = (if r \<in> fst ` set kvs then map fst kvs else map fst kvs @ [r])"
  by (induction r kvs rule: counter_add.induct) auto

lemma counter_add_map_of:
  "map_of (counter_add r kvs) = (map_of kvs)(r \<mapsto> (case map_of kvs r of None \<Rightarrow> 1 | Some n \<Rightarrow> n + 1))"
  by (induction r kvs rule: counter_add.induct) (auto simp: fun_eq_iff)

lemma Counter_keys: "set (map fst (Counter xs)) = set xs \<and> distinct (map fst (Counter xs))"
  by (induction xs rule: rev_induct) (auto simp: Counter_snoc counter_add_keys Counter_def)

lemma Counter_map_of:
  "map_of (Counter xs) r = (if r \<in> set xs then Some (count_list xs r) else None)"
proof (induction xs rule: rev_induct)
  case Nil
  then show ?case by (simp add: Counter_def)
next
  case (snoc x xs)
  then show ?case by (auto simp: Counter_snoc counter_add_map_of)
qed

lemma Counter_set: "set (Counter xs) = {(r, count_list xs r) | r. r \<in> set xs}"
proof -
  have d: "distinct (map fst (Counter xs))" using Counter_keys by blast
  have "(r, n) \<in> set (Counter xs) \<longleftrightarrow> r \<in> set xs \<and> n = count_list xs r" for r n
    using map_of_eq_Some_iff[OF d, of r n] by (auto simp: Counter_map_of split: if_splits)
  then show ?thesis by auto
qed


lemma Counter_counts: "n \<in> set (map snd (Counter xs)) \<longleftrightarrow> (\<exists>r \<in> set xs. count_list xs r = n)"
  by (force simp: Counter_set)

lemma rwc_set: "set (ranks_with_count (Counter xs) n) = {r \<in> set xs. count_list xs r = n}"
  by (force simp: ranks_with_count_def Counter_set)

lemma rwc_distinct: "distinct (ranks_with_count (Counter xs) n)"
  unfolding ranks_with_count_def using Counter_keys[of xs] by (simp add: distinct_map_filter)

lemma count_filter_neq: "length (filter (\<lambda>x. x \<noteq> r) xs) + count_list xs r = length xs"
  by (induction xs) auto

lemma count_two: "a \<noteq> b \<Longrightarrow> length (filter (\<lambda>x. x \<noteq> a \<and> x \<noteq> b) xs) + count_list xs a + count_list xs b = length xs"
  by (induction xs) auto

lemma count_three: "a \<noteq> b \<Longrightarrow> a \<noteq> c \<Longrightarrow> b \<noteq> c \<Longrightarrow> count_list xs a + count_list xs b + count_list xs c \<le> length xs"
  by (induction xs) auto



lemma subset_singleton_notin: "set zs \<subseteq> {a} \<Longrightarrow> a \<notin> set zs \<Longrightarrow> zs = []"
  by (cases zs) auto

lemma distinct_singleton: "distinct ys \<Longrightarrow> set ys = {a} \<Longrightarrow> ys = [a]"
  by (cases ys) (auto simp: subset_singleton_notin)

lemma rwc_single:
  assumes "r \<in> set xs" "count_list xs r = n" "length xs < 2 * n"
  shows "ranks_with_count (Counter xs) n = [r]"
proof -
  have "r' = r" if "r' \<in> set xs" "count_list xs r' = n" for r'
  proof (rule ccontr)
    assume "r' \<noteq> r"
    from count_two[OF this, of xs] that assms show False by simp
  qed
  then have "{r' \<in> set xs. count_list xs r' = n} = {r}"
    using assms(1,2) by blast
  then have "set (ranks_with_count (Counter xs) n) = {r}"
    by (simp only: rwc_set)
  then show ?thesis by (rule distinct_singleton[OF rwc_distinct])
qed

lemma first_single: "first [x] = Inr x"
  by (simp add: first_def)

lemma sort_mset: "mset ys = mset xs \<Longrightarrow> sort ys = sort xs"
  for xs ys :: "int list"
proof -
  assume "mset ys = mset xs"
  then have "mset (sort xs) = mset ys" by simp
  from properties_for_sort[OF this] show ?thesis by simp
qed

lemma sorted_reverse_mset: "mset ys = mset xs \<Longrightarrow> sorted_reverse ys = sorted_reverse xs"
  unfolding sorted_reverse_def using sort_mset[of ys xs] by simp

lemma is_straight_mset: "mset ys = mset xs \<Longrightarrow> is_straight ys = is_straight xs"
  unfolding is_straight_def using sort_mset[of ys xs] by simp

lemma filter_single_mset:
  assumes "mset ys = mset xs" "filter P xs = [k]"
  shows "filter P ys = [k]"
proof -
  have "mset (filter P ys) = mset (filter P xs)" using assms(1) by simp
  then have "mset (filter P ys) = {#k#}" by (simp only: assms(2) mset.simps)
  then show ?thesis by (simp only: mset_single_iff)
qed

lemma length1E: "length zs = Suc 0 \<Longrightarrow> \<exists>k. zs = [k]"
  by (cases zs) auto

section \<open>Five cards as a multiset\<close>

text \<open>
  Everything \<open>evaluate_five_cards\<close> reads of its argument (the sorted ranks, the set of
  suits, the ranks with a given count) depends on the multiset of the cards only.
\<close>

lemma count_list_mset: "mset ys = mset xs \<Longrightarrow> count_list ys r = count_list xs r"
  by (metis count_mset)

lemma Counter_counts_mset:
  assumes "mset ys = mset xs"
  shows "set (map snd (Counter ys)) = set (map snd (Counter xs))"
proof -
  have "set ys = set xs" using assms by (rule mset_eq_setD)
  then have "n \<in> set (map snd (Counter ys)) \<longleftrightarrow> n \<in> set (map snd (Counter xs))" for n
    unfolding Counter_counts using count_list_mset[OF assms] by simp
  then show ?thesis by blast
qed

lemma rwc_set_mset:
  assumes "mset ys = mset xs"
  shows "set (ranks_with_count (Counter ys) n) = set (ranks_with_count (Counter xs) n)"
proof -
  have "set ys = set xs" using assms by (rule mset_eq_setD)
  then show ?thesis unfolding rwc_set using count_list_mset[OF assms] by simp
qed

lemma rwc_mset_mset:
  assumes "mset ys = mset xs"
  shows "mset (ranks_with_count (Counter ys) n) = mset (ranks_with_count (Counter xs) n)"
  using rwc_set_mset[OF assms] rwc_distinct set_eq_iff_mset_eq_distinct by blast

lemma filter_sorted_reverse_mset:
  assumes "mset ys = mset xs"
  shows "sorted_reverse (filter P ys) = sorted_reverse (filter P xs)"
  by (rule sorted_reverse_mset) (simp add: assms)

text \<open>The four branches of the evaluation of five cards that read the counter.\<close>

lemma quads_branch:
  assumes "length xs = 5" "4 \<in> set (map snd (Counter xs))"
  obtains r k where "ranks_with_count (Counter xs) 4 = [r]" "filter (\<lambda>x. x \<noteq> r) xs = [k]"
    "r \<in> set xs" "count_list xs r = 4"
proof -
  from assms(2) obtain r where r: "r \<in> set xs" "count_list xs r = 4"
    unfolding Counter_counts by blast
  have a: "ranks_with_count (Counter xs) 4 = [r]"
    by (rule rwc_single[OF r]) (simp add: assms(1))
  have "length (filter (\<lambda>x. x \<noteq> r) xs) = Suc 0"
    using count_filter_neq[of r xs] r(2) assms(1) by simp
  then obtain k where "filter (\<lambda>x. x \<noteq> r) xs = [k]" using length1E by blast
  with a r show ?thesis using that by blast
qed

lemma trips_branch:
  assumes "length xs = 5" "3 \<in> set (map snd (Counter xs))"
  obtains r where "ranks_with_count (Counter xs) 3 = [r]" "r \<in> set xs" "count_list xs r = 3"
proof -
  from assms(2) obtain r where r: "r \<in> set xs" "count_list xs r = 3"
    unfolding Counter_counts by blast
  have a: "ranks_with_count (Counter xs) 3 = [r]"
    by (rule rwc_single[OF r]) (simp add: assms(1))
  with r show ?thesis using that by blast
qed

lemma full_house_branch:
  assumes "length xs = 5" "3 \<in> set (map snd (Counter xs))" "2 \<in> set (map snd (Counter xs))"
  obtains p where "ranks_with_count (Counter xs) 2 = [p]"
proof -
  from assms(2) obtain r where r: "r \<in> set xs" "count_list xs r = 3"
    unfolding Counter_counts by blast
  from assms(3) obtain p where p: "p \<in> set xs" "count_list xs p = 2"
    unfolding Counter_counts by blast
  have rp: "r \<noteq> p" using r p by auto
  have "q = p" if "q \<in> set xs" "count_list xs q = 2" for q
  proof (rule ccontr)
    assume "q \<noteq> p"
    moreover have "r \<noteq> q" using r that by auto
    ultimately show False
      using count_three[of r p q xs] rp r(2) p(2) that(2) assms(1) by simp
  qed
  then have "{q \<in> set xs. count_list xs q = 2} = {p}" using p by blast
  then have "set (ranks_with_count (Counter xs) 2) = {p}" by (simp only: rwc_set)
  then have "ranks_with_count (Counter xs) 2 = [p]"
    by (rule distinct_singleton[OF rwc_distinct])
  then show ?thesis using that by blast
qed

lemma two_pair_branch:
  assumes "length xs = 5" "length (ranks_with_count (Counter xs) 2) = 2"
  obtains k where
    "filter (\<lambda>r. r \<notin> set (sorted_reverse (ranks_with_count (Counter xs) 2))) xs = [k]"
proof -
  from assms(2) obtain a b where ab: "ranks_with_count (Counter xs) 2 = [a, b]"
    by (cases "ranks_with_count (Counter xs) 2" rule: list.exhaust; simp)
       (metis length_0_conv length_Suc_conv)
  have "distinct [a, b]" using rwc_distinct[of xs 2] ab by simp
  then have ne: "a \<noteq> b" by simp
  have "set [a, b] = {r \<in> set xs. count_list xs r = 2}" using rwc_set[of xs 2] ab by simp
  then have c: "count_list xs a = 2" "count_list xs b = 2" by auto
  have s: "set (sorted_reverse [a, b]) = {a, b}" by (auto simp: sorted_reverse_def)
  have "filter (\<lambda>r. r \<notin> set (sorted_reverse [a, b])) xs = filter (\<lambda>x. x \<noteq> a \<and> x \<noteq> b) xs"
    unfolding s by (rule filter_cong) auto
  moreover have "length (filter (\<lambda>x. x \<noteq> a \<and> x \<noteq> b) xs) = Suc 0"
    using count_two[OF ne, of xs] c assms(1) by simp
  ultimately obtain k where "filter (\<lambda>r. r \<notin> set (sorted_reverse [a, b])) xs = [k]"
    using length1E by metis
  then show ?thesis using that ab by simp
qed

lemma one_pair_branch:
  assumes "length (ranks_with_count (Counter xs) 2) = 1"
  obtains p where "ranks_with_count (Counter xs) 2 = [p]"
  using assms length1E by (metis One_nat_def)

lemma is_straight_royal: "is_straight [12, 11, 10, 9, 8]"
  by (simp add: is_straight_def)

lemma evaluate_five_cards_mset:
  assumes m: "mset cs' = mset cs" and l: "length cs = 5"
  shows "evaluate_five_cards cs' = evaluate_five_cards cs
    \<and> (\<exists>h. evaluate_five_cards cs = Inr h)"
proof -
  define xs where "xs = map value cs"
  define ys where "ys = map value cs'"
  define fl where "fl = (card (set (map suit cs)) = 1)"
  have mx: "mset ys = mset xs" unfolding xs_def ys_def using m by simp
  have lx: "length xs = 5" unfolding xs_def using l by simp
  have "mset (map suit cs') = mset (map suit cs)" using m by simp
  then have "set (map suit cs') = set (map suit cs)" by (rule mset_eq_setD)
  then have fl': "(card (set (map suit cs')) = 1) = fl" unfolding fl_def by simp
  have S: "sorted_reverse ys = sorted_reverse xs" by (rule sorted_reverse_mset[OF mx])
  have C: "set (map snd (Counter ys)) = set (map snd (Counter xs))"
    by (rule Counter_counts_mset[OF mx])
  have cnt: "count_list ys r = count_list xs r" for r by (rule count_list_mset[OF mx])
  have sxy: "set ys = set xs" by (rule mset_eq_setD[OF mx])
  have ly: "length ys = 5" using mset_eq_length[OF mx] lx by simp
  have FS: "sorted_reverse (filter P ys) = sorted_reverse (filter P xs)" for P
    by (rule filter_sorted_reverse_mset[OF mx])
  have PM: "mset (ranks_with_count (Counter ys) 2) = mset (ranks_with_count (Counter xs) 2)"
    by (rule rwc_mset_mset[OF mx])
  show ?thesis
  proof (cases "4 \<in> set (map snd (Counter xs))")
    case True
    from quads_branch[OF lx True] obtain r k where
      rk: "ranks_with_count (Counter xs) 4 = [r]" "filter (\<lambda>x. x \<noteq> r) xs = [k]"
        "r \<in> set xs" "count_list xs r = 4" by blast
    have r': "ranks_with_count (Counter ys) 4 = [r]"
      by (rule rwc_single) (simp_all add: sxy cnt rk ly)
    have k': "filter (\<lambda>x. x \<noteq> r) ys = [k]"
      by (rule filter_single_mset[OF mx rk(2)])
    show ?thesis
      unfolding evaluate_five_cards_def Let_def ys_def[symmetric] xs_def[symmetric] fl'
        fl_def[symmetric]
      by (simp add: S C True rk r' k' first_def is_straight_royal del: set_map)
  next
    case no4: False
    show ?thesis
    proof (cases "3 \<in> set (map snd (Counter xs))")
      case True
      from trips_branch[OF lx True] obtain r where
        r: "ranks_with_count (Counter xs) 3 = [r]" "r \<in> set xs" "count_list xs r = 3"
        by blast
      have r': "ranks_with_count (Counter ys) 3 = [r]"
        by (rule rwc_single) (simp_all add: sxy cnt r ly)
      show ?thesis
      proof (cases "2 \<in> set (map snd (Counter xs))")
        case two: True
        from full_house_branch[OF lx True two] obtain p where
          p: "ranks_with_count (Counter xs) 2 = [p]" by blast
        have "set (ranks_with_count (Counter ys) 2) = {p}"
          using rwc_set_mset[OF mx, of 2] p by simp
        then have p': "ranks_with_count (Counter ys) 2 = [p]"
          by (rule distinct_singleton[OF rwc_distinct])
        show ?thesis
          unfolding evaluate_five_cards_def Let_def ys_def[symmetric] xs_def[symmetric] fl'
            fl_def[symmetric]
          by (simp add: S C True two no4 r r' p p' first_def is_straight_royal del: set_map)
      next
        case two: False
        show ?thesis
          unfolding evaluate_five_cards_def Let_def ys_def[symmetric] xs_def[symmetric] fl'
            fl_def[symmetric]
          by (simp add: S C FS True two no4 r r' first_def is_straight_royal del: set_map)
      qed
    next
      case no3: False
      have len: "length (ranks_with_count (Counter ys) 2)
          = length (ranks_with_count (Counter xs) 2)"
        by (rule mset_eq_length[OF PM])
      have PS: "sorted_reverse (ranks_with_count (Counter ys) 2)
          = sorted_reverse (ranks_with_count (Counter xs) 2)"
        by (rule sorted_reverse_mset[OF PM])
      show ?thesis
      proof (cases "length (ranks_with_count (Counter xs) 2) = 2")
        case True
        from two_pair_branch[OF lx True] obtain k where k:
          "filter (\<lambda>r. r \<notin> set (sorted_reverse (ranks_with_count (Counter xs) 2))) xs = [k]"
          by blast
        have k': 
          "filter (\<lambda>r. r \<notin> set (sorted_reverse (ranks_with_count (Counter xs) 2))) ys = [k]"
          by (rule filter_single_mset[OF mx k])
        show ?thesis
          unfolding evaluate_five_cards_def Let_def ys_def[symmetric] xs_def[symmetric] fl'
            fl_def[symmetric]
          by (simp add: S C PS len True no3 no4 k k' first_def is_straight_royal del: set_map)
      next
        case not2: False
        show ?thesis
        proof (cases "length (ranks_with_count (Counter xs) 2) = 1")
          case True
          from one_pair_branch[OF True] obtain p where
            p: "ranks_with_count (Counter xs) 2 = [p]" by blast
          have "set (ranks_with_count (Counter ys) 2) = {p}"
            using rwc_set_mset[OF mx, of 2] p by simp
          then have p': "ranks_with_count (Counter ys) 2 = [p]"
            by (rule distinct_singleton[OF rwc_distinct])
          show ?thesis
            unfolding evaluate_five_cards_def Let_def ys_def[symmetric] xs_def[symmetric] fl'
              fl_def[symmetric]
            by (simp add: S C FS no3 no4 p p' first_def is_straight_royal del: set_map)
        next
          case False
          then have not1: "length (ranks_with_count (Counter xs) 2) \<noteq> Suc 0" by simp
          show ?thesis
            unfolding evaluate_five_cards_def Let_def ys_def[symmetric] xs_def[symmetric] fl'
              fl_def[symmetric]
            by (simp add: S C len not2 not1 no3 no4 first_def is_straight_royal del: set_map)
        qed
      qed
    qed
  qed
qed

section \<open>Combinations\<close>

text \<open>
  As multisets, the combinations of \<open>k\<close> elements of a list are the sub-multisets of size
  \<open>k\<close> of its multiset.
\<close>

lemma combinations_length: "c \<in> set (combinations xs k) \<Longrightarrow> length c = k"
  by (induction xs k arbitrary: c rule: combinations.induct) auto

lemma subset_add_mset_cases:
  assumes "M \<subseteq># add_mset x A"
  shows "M \<subseteq># A \<or> (x \<in># M \<and> M - {#x#} \<subseteq># A)"
proof -
  have d: "M - {#x#} \<subseteq># A" using assms by (simp add: subset_eq_diff_conv)
  show ?thesis
  proof (cases "x \<in># M")
    case True
    with d show ?thesis by simp
  next
    case False
    with d show ?thesis by simp
  qed
qed

lemma subset_add_mset_right: "M \<subseteq># A \<Longrightarrow> M \<subseteq># add_mset x A"
  by (simp add: subseteq_mset_def le_Suc_eq)

lemma combinations_mset:
  "mset ` set (combinations xs k) = {M. M \<subseteq># mset xs \<and> size M = k}"
proof (induction xs k rule: combinations.induct)
  case (1 xs)
  then show ?case by auto
next
  case (2 k)
  then show ?case by auto
next
  case (3 x xs k)
  have "mset ` set (combinations (x # xs) (Suc k))
      = add_mset x ` (mset ` set (combinations xs k)) \<union> mset ` set (combinations xs (Suc k))"
    by (auto simp: image_Un image_image)
  also have "\<dots> = add_mset x ` {M. M \<subseteq># mset xs \<and> size M = k}
      \<union> {M. M \<subseteq># mset xs \<and> size M = Suc k}"
    by (simp only: 3)
  also have "\<dots> = {M. M \<subseteq># mset (x # xs) \<and> size M = Suc k}" (is "?L = ?R")
  proof
    show "?L \<subseteq> ?R"
      by (auto intro: subset_add_mset_right)
  next
    show "?R \<subseteq> ?L"
    proof
      fix M assume "M \<in> ?R"
      then have M: "M \<subseteq># add_mset x (mset xs)" "size M = Suc k" by auto
      from subset_add_mset_cases[OF M(1)] show "M \<in> ?L"
      proof
        assume "M \<subseteq># mset xs"
        then show ?thesis using M(2) by simp
      next
        assume a: "x \<in># M \<and> M - {#x#} \<subseteq># mset xs"
        then have "size (M - {#x#}) = k" using M(2) by (simp add: size_Diff_singleton)
        moreover have "M = add_mset x (M - {#x#})" using a by simp
        ultimately have "M \<in> add_mset x ` {M. M \<subseteq># mset xs \<and> size M = k}"
          using a by blast
        then show ?thesis by blast
      qed
    qed
  qed
  finally show ?case .
qed

section \<open>The best hand as a maximum\<close>

text \<open>
  The loop of \<open>evaluate_hand\<close> never fails and computes the maximum of the rankings of
  all combinations of five cards, and of \<open>(0, [])\<close>.
\<close>

lemma evaluate_five_cards_total:
  "length cs = 5 \<Longrightarrow> \<exists>h. evaluate_five_cards cs = Inr h"
  using evaluate_five_cards_mset[of cs cs] by simp

lemma best_step_max:
  "(if t > fst b \<or> (t = fst b \<and> list_gt k (snd b)) then (t, k) else b) = max b (t, k)"
  for b :: hand_rank
  by (cases b) (auto simp: list_gt_less max_def)

lemma best_of_Max:
  assumes "\<forall>c \<in> set cs. length c = 5"
  shows "best_of cs b = Inr (Max (insert b ((\<lambda>c. projr (evaluate_five_cards c)) ` set cs)))"
  using assms
proof (induction cs arbitrary: b)
  case Nil
  then show ?case by simp
next
  case (Cons c cs)
  from Cons.prems have "length c = 5" by simp
  then obtain t k where tk: "evaluate_five_cards c = Inr (t, k)"
    using evaluate_five_cards_total by fastforce
  let ?S = "(\<lambda>c. projr (evaluate_five_cards c)) ` set cs"
  have fin: "finite ?S" by simp
  have "best_of (c # cs) b = best_of cs (max b (t, k))"
    by (simp add: tk best_step_max)
  also have "\<dots> = Inr (Max (insert (max b (t, k)) ?S))"
    using Cons by simp
  also have "Max (insert (max b (t, k)) ?S) = Max (insert b (insert (t, k) ?S))"
  proof (cases "?S = {}")
    case True
    then show ?thesis by (simp add: max.commute)
  next
    case False
    then show ?thesis using fin by (simp add: max.assoc)
  qed
  finally show ?case by (simp add: tk)
qed

lemma combinations_image_mset:
  assumes "mset ys = mset xs"
  shows "(\<lambda>c. projr (evaluate_five_cards c)) ` set (combinations ys 5)
       = (\<lambda>c. projr (evaluate_five_cards c)) ` set (combinations xs 5)"
proof -
  have sub: "(\<lambda>c. projr (evaluate_five_cards c)) ` set (combinations us 5)
       \<subseteq> (\<lambda>c. projr (evaluate_five_cards c)) ` set (combinations vs 5)"
    if m: "mset us = mset vs" for us vs :: "card list"
  proof
    fix h assume "h \<in> (\<lambda>c. projr (evaluate_five_cards c)) ` set (combinations us 5)"
    then obtain c where c: "c \<in> set (combinations us 5)" "h = projr (evaluate_five_cards c)"
      by blast
    have "mset c \<in> mset ` set (combinations us 5)" using c(1) by blast
    then have "mset c \<in> mset ` set (combinations vs 5)"
      unfolding combinations_mset m .
    then obtain c' where c': "c' \<in> set (combinations vs 5)" "mset c' = mset c" by auto
    have "length c = 5" using c(1) by (rule combinations_length)
    from evaluate_five_cards_mset[OF c'(2) this]
    have "evaluate_five_cards c' = evaluate_five_cards c" by simp
    then have "h = projr (evaluate_five_cards c')" using c(2) by simp
    then show "h \<in> (\<lambda>c. projr (evaluate_five_cards c)) ` set (combinations vs 5)"
      using c'(1) by (rule image_eqI)
  qed
  show ?thesis using sub[OF assms] sub[OF assms[symmetric]] by blast
qed

lemma evaluate_hand_Max:
  "5 \<le> length cards \<Longrightarrow> evaluate_hand cards
     = Inr (Max (insert (0, []) ((\<lambda>c. projr (evaluate_five_cards c)) ` set (combinations cards 5))))"
  unfolding evaluate_hand_def using best_of_Max[of "combinations cards 5" "(0, [])"]
  by (simp add: combinations_length)

lemma evaluate_hand_total: "\<exists>h. evaluate_hand cards = Inr h"
proof (cases "5 \<le> length cards")
  case True
  from evaluate_hand_Max[OF this] show ?thesis by blast
next
  case False
  then show ?thesis by (simp add: evaluate_hand_def)
qed

lemma evaluate_hand_mset:
  assumes "mset ys = mset xs"
  shows "evaluate_hand ys = evaluate_hand xs"
proof (cases "5 \<le> length xs")
  case True
  then have "5 \<le> length ys" using mset_eq_length[OF assms] by simp
  then show ?thesis
    using True by (simp add: evaluate_hand_Max combinations_image_mset[OF assms])
next
  case False
  then have "length xs < 5" "length ys < 5" using mset_eq_length[OF assms] by simp_all
  then show ?thesis by (simp add: evaluate_hand_def)
qed

section \<open>Five cards of five different ranks\<close>

lemma combinations_too_many: "length xs < k \<Longrightarrow> combinations xs k = []"
  by (induction xs k rule: combinations.induct) auto

lemma combinations_all: "combinations xs (length xs) = [xs]"
  by (induction xs) (auto simp: combinations_too_many)

lemma count_list_distinct: "distinct xs \<Longrightarrow> r \<in> set xs \<Longrightarrow> count_list xs r = 1"
  by (induction xs) auto

lemma distinct_counts:
  assumes "distinct xs" "Suc 0 < n"
  shows "n \<notin> set (map snd (Counter xs))" "ranks_with_count (Counter xs) n = []"
proof -
  show "n \<notin> set (map snd (Counter xs))"
    unfolding Counter_counts using count_list_distinct[OF assms(1)] assms(2) by auto
  have "set (ranks_with_count (Counter xs) n) = {}"
    unfolding rwc_set using count_list_distinct[OF assms(1)] assms(2) by auto
  then show "ranks_with_count (Counter xs) n = []" by simp
qed

lemma sort_of_distinct_set:
  fixes xs zs :: "int list"
  assumes "length xs = length zs" "set xs = set zs" "distinct zs" "sorted zs"
  shows "sort xs = zs"
proof -
  have "card (set xs) = length xs" using assms distinct_card by fastforce
  then have "distinct xs" by (rule card_distinct)
  then have "mset zs = mset xs" using assms(2,3) set_eq_iff_mset_eq_distinct by blast
  from properties_for_sort[OF this assms(4)] show ?thesis .
qed

lemma not_flush:
  assumes "c \<in> set cs" "c' \<in> set cs" "suit c \<noteq> suit c'"
  shows "card (set (map suit cs)) \<noteq> 1"
proof
  assume "card (set (map suit cs)) = 1"
  then obtain s where "set (map suit cs) = {s}" by (rule card_1_singletonE)
  then have "suit c = s" "suit c' = s" using assms(1,2) by auto
  then show False using assms(3) by simp
qed

lemma evaluate_hand_five:
  "length cs = 5 \<Longrightarrow> evaluate_five_cards cs = Inr h \<Longrightarrow> evaluate_hand cs = Inr (max (0, []) h)"
  using evaluate_hand_Max[of cs] combinations_all[of cs] by simp

lemma wheel_values:
  assumes "length cs = 5" "rank ` set cs = {RA, R2, R3, R4, R5}"
  shows "sorted_reverse (map value cs) = [12, 3, 2, 1, 0]" "distinct (map value cs)"
proof -
  have s: "set (map value cs) = set [0, 1, 2, 3, 12]"
  proof -
    have "set (map value cs) = RANK_VALUES ` (rank ` set cs)"
      by (auto simp: value_def image_image)
    then show ?thesis unfolding assms(2) by auto
  qed
  have "sort (map value cs) = [0, 1, 2, 3, 12]"
    by (rule sort_of_distinct_set[OF _ s]) (simp_all add: assms(1))
  then show "sorted_reverse (map value cs) = [12, 3, 2, 1, 0]"
    by (simp add: sorted_reverse_def)
  have "card (set (map value cs)) = length (map value cs)"
    unfolding s using assms(1) by simp
  then show "distinct (map value cs)" by (rule card_distinct)
qed

lemma six_high_values:
  assumes "length cs = 5" "rank ` set cs = {R2, R3, R4, R5, R6}"
  shows "sorted_reverse (map value cs) = [4, 3, 2, 1, 0]" "distinct (map value cs)"
proof -
  have s: "set (map value cs) = set [0, 1, 2, 3, 4]"
  proof -
    have "set (map value cs) = RANK_VALUES ` (rank ` set cs)"
      by (auto simp: value_def image_image)
    then show ?thesis unfolding assms(2) by auto
  qed
  have "sort (map value cs) = [0, 1, 2, 3, 4]"
    by (rule sort_of_distinct_set[OF _ s]) (simp_all add: assms(1))
  then show "sorted_reverse (map value cs) = [4, 3, 2, 1, 0]"
    by (simp add: sorted_reverse_def)
  have "card (set (map value cs)) = length (map value cs)"
    unfolding s using assms(1) by simp
  then show "distinct (map value cs)" by (rule card_distinct)
qed

lemma wheel_five:
  assumes "length cs = 5" "rank ` set cs = {RA, R2, R3, R4, R5}"
    "c \<in> set cs" "c' \<in> set cs" "suit c \<noteq> suit c'"
  shows "evaluate_five_cards cs = Inr (4, [3, 2, 1, 0, -1])"
proof -
  note v = wheel_values[OF assms(1,2)]
  note nf = not_flush[OF assms(3,4,5)]
  show ?thesis
    unfolding evaluate_five_cards_def Let_def
    using nf by (simp add: v(1) distinct_counts[OF v(2)] del: set_map)
qed

lemma six_high_five:
  assumes "length cs = 5" "rank ` set cs = {R2, R3, R4, R5, R6}"
  shows "evaluate_five_cards cs = Inr (4, [4, 3, 2, 1, 0])
       \<or> evaluate_five_cards cs = Inr (8, [4, 3, 2, 1, 0])"
proof -
  note v = six_high_values[OF assms(1,2)]
  have st: "is_straight [4, 3, 2, 1, 0]" by (simp add: is_straight_def)
  show ?thesis
    unfolding evaluate_five_cards_def Let_def
    by (simp add: v(1) st distinct_counts[OF v(2)] del: set_map)
qed

section \<open>The wheel straight\<close>

text \<open>
  C1. Five cards whose ranks are exactly ace, 2, 3, 4, 5 and whose suits are not all the
  same evaluate to hand type 4 (straight) with the key \<open>[3, 2, 1, 0, -1]\<close>, in which the
  ace counts below the two. Under Python's tuple comparison this ranking is strictly below
  the ranking of every five cards with the ranks 2 to 6 (of any suits, so also below the
  six-high straight flush) and strictly above every ranking of hand type 0.
\<close>

theorem wheel_straight:
  assumes "length cards = 5" and "rank ` set cards = {RA, R2, R3, R4, R5}"
    and "\<exists>c \<in> set cards. \<exists>c' \<in> set cards. suit c \<noteq> suit c'"
  shows "evaluate_hand cards = Inr (4, [3, 2, 1, 0, -1])
    \<and> (\<forall>six. length six = 5 \<and> rank ` set six = {R2, R3, R4, R5, R6} \<longrightarrow>
          (\<exists>h. evaluate_hand six = Inr h \<and> hand_gt h (4, [3, 2, 1, 0, -1])))
    \<and> (\<forall>other key. evaluate_hand other = Inr (0, key) \<longrightarrow>
          hand_gt (4, [3, 2, 1, 0, -1]) (0, key))"
proof (intro conjI allI impI)
  from assms(3) obtain c c' where "c \<in> set cards" "c' \<in> set cards" "suit c \<noteq> suit c'"
    by blast
  from wheel_five[OF assms(1,2) this]
  have "evaluate_five_cards cards = Inr (4, [3, 2, 1, 0, -1])" .
  from evaluate_hand_five[OF assms(1) this]
  show "evaluate_hand cards = Inr (4, [3, 2, 1, 0, -1])" by (simp add: max_def)
next
  fix six :: "card list"
  assume a: "length six = 5 \<and> rank ` set six = {R2, R3, R4, R5, R6}"
  then have l: "length six = 5" and r: "rank ` set six = {R2, R3, R4, R5, R6}" by simp_all
  from six_high_five[OF l r]
  show "\<exists>h. evaluate_hand six = Inr h \<and> hand_gt h (4, [3, 2, 1, 0, -1])"
  proof
    assume "evaluate_five_cards six = Inr (4, [4, 3, 2, 1, 0])"
    from evaluate_hand_five[OF l this] show ?thesis by (simp add: max_def hand_gt_def)
  next
    assume "evaluate_five_cards six = Inr (8, [4, 3, 2, 1, 0])"
    from evaluate_hand_five[OF l this] show ?thesis by (simp add: max_def hand_gt_def)
  qed
next
  fix other key
  show "hand_gt (4, [3, 2, 1, 0, -1]) (0, key)" by (simp add: hand_gt_def)
qed

text \<open>The wheel and a six-high straight of mixed suits.\<close>

theorem wheel_straight_witness:
  "evaluate_hand [Card RA Spade, Card R2 Heart, Card R3 Spade, Card R4 Club, Card R5 Diamond]
     = Inr (4, [3, 2, 1, 0, -1])
   \<and> (\<exists>h. evaluate_hand [Card R2 Heart, Card R3 Spade, Card R4 Club, Card R5 Diamond,
              Card R6 Spade] = Inr h \<and> hand_gt h (4, [3, 2, 1, 0, -1]))"
proof -
  let ?w = "[Card RA Spade, Card R2 Heart, Card R3 Spade, Card R4 Club, Card R5 Diamond]"
  let ?s = "[Card R2 Heart, Card R3 Spade, Card R4 Club, Card R5 Diamond, Card R6 Spade]"
  have 1: "length ?w = 5" by simp
  have 2: "rank ` set ?w = {RA, R2, R3, R4, R5}" by (simp add: Card_def)
  have 3: "\<exists>c \<in> set ?w. \<exists>c' \<in> set ?w. suit c \<noteq> suit c'"
    by (intro bexI[of _ "Card RA Spade"] bexI[of _ "Card R2 Heart"])
       (simp_all add: Card_def)
  have 4: "length ?s = 5 \<and> rank ` set ?s = {R2, R3, R4, R5, R6}" by (simp add: Card_def)
  from wheel_straight[OF 1 2 3] 4 show ?thesis by blast
qed

section \<open>Card counts outside 5 to 7\<close>

text \<open>
  C4 (as stated, refuted). The claim expects an error for fewer than five or more than
  seven cards. For the empty list \<open>evaluate_hand\<close> returns the ranking \<open>(0, [])\<close>, and for
  eight cards without a pair, a straight or a flush it returns the high-card ranking of
  the five highest: king, jack, nine, seven, five.
\<close>

theorem evaluate_hand_card_count_counterexample:
  "evaluate_hand [] = Inr (0, [])
   \<and> evaluate_hand [Card R2 Spade, Card R3 Spade, Card R4 Spade, Card R5 Heart, Card R7 Heart,
        Card R9 Club, Card RJ Club, Card RK Diamond] = Inr (0, [11, 9, 7, 5, 3])"
proof -
  let ?cs = "[Card R2 Spade, Card R3 Spade, Card R4 Spade, Card R5 Heart, Card R7 Heart,
        Card R9 Club, Card RJ Club, Card RK Diamond]"
  have "5 \<le> length ?cs" by simp
  then have "evaluate_hand ?cs
      = Inr (Max (insert (0, []) ((\<lambda>c. projr (evaluate_five_cards c))
                 ` set (combinations ?cs 5))))" by (rule evaluate_hand_Max)
  also have "Max (insert (0, []) ((\<lambda>c. projr (evaluate_five_cards c))
                 ` set (combinations ?cs 5))) = (0, [11, 9, 7, 5, 3])" by code_simp
  finally have "evaluate_hand ?cs = Inr (0, [11, 9, 7, 5, 3])" .
  moreover have "evaluate_hand [] = Inr (0, [])" by (simp add: evaluate_hand_def)
  ultimately show ?thesis by simp
qed

text \<open>
  C4 (amended). \<open>evaluate_hand\<close> never signals an error, whatever the number of cards:
  fewer than five cards give the ranking \<open>(0, [])\<close>; more than seven cards give, like five
  to seven, the greatest ranking over all combinations of five of the cards (and \<open>(0, [])\<close>
  if none exceeds it).
\<close>

theorem evaluate_hand_never_raises:
  "(length cards < 5 \<longrightarrow> evaluate_hand cards = Inr (0, []))
   \<and> (7 < length cards \<longrightarrow> evaluate_hand cards
         = Inr (Max (insert (0, []) ((\<lambda>c. projr (evaluate_five_cards c))
                 ` set (combinations cards 5)))))
   \<and> (\<exists>h. evaluate_hand cards = Inr h)"
proof (intro conjI impI)
  assume "length cards < 5"
  then show "evaluate_hand cards = Inr (0, [])" by (simp add: evaluate_hand_def)
next
  assume "7 < length cards"
  then have "5 \<le> length cards" by simp
  then show "evaluate_hand cards
         = Inr (Max (insert (0, []) ((\<lambda>c. projr (evaluate_five_cards c))
                 ` set (combinations cards 5))))" by (rule evaluate_hand_Max)
next
  show "\<exists>h. evaluate_hand cards = Inr h" by (rule evaluate_hand_total)
qed

theorem evaluate_hand_never_raises_witness:
  "length [Card RA Spade, Card RA Heart] < 5
   \<and> evaluate_hand [Card RA Spade, Card RA Heart] = Inr (0, [])
   \<and> 7 < length (replicate 8 (Card RA Spade))
   \<and> (\<exists>h. evaluate_hand (replicate 8 (Card RA Spade)) = Inr h)"
proof -
  have 1: "length [Card RA Spade, Card RA Heart] < 5" by simp
  have 2: "7 < length (replicate 8 (Card RA Spade))" by simp
  from evaluate_hand_never_raises[of "[Card RA Spade, Card RA Heart]"] 1
  have "evaluate_hand [Card RA Spade, Card RA Heart] = Inr (0, [])" by blast
  moreover from evaluate_hand_never_raises[of "replicate 8 (Card RA Spade)"]
  have "\<exists>h. evaluate_hand (replicate 8 (Card RA Spade)) = Inr h" by blast
  ultimately show ?thesis using 1 2 by blast
qed

section \<open>Order of the input cards\<close>

text \<open>
  C8. For five to seven pairwise different cards, every rearrangement of the input gives
  the same ranking (hand type and key cards), and the evaluation returns a ranking.
\<close>

theorem evaluate_hand_order_invariant:
  assumes "5 \<le> length cards" and "length cards \<le> 7" and "distinct cards"
    and "mset cards' = mset cards"
  shows "evaluate_hand cards' = evaluate_hand cards \<and> (\<exists>h. evaluate_hand cards = Inr h)"
  using evaluate_hand_mset[OF assms(4)] evaluate_hand_total[of cards] by simp

theorem evaluate_hand_order_invariant_witness:
  "evaluate_hand [Card R6 Heart, Card R6 Club, Card R5 Spade, Card R4 Spade, Card R3 Spade,
       Card RA Heart, Card RA Spade]
   = evaluate_hand [Card RA Spade, Card RA Heart, Card R3 Spade, Card R4 Spade, Card R5 Spade,
       Card R6 Club, Card R6 Heart]"
proof -
  let ?a = "[Card RA Spade, Card RA Heart, Card R3 Spade, Card R4 Spade, Card R5 Spade,
       Card R6 Club, Card R6 Heart]"
  let ?b = "[Card R6 Heart, Card R6 Club, Card R5 Spade, Card R4 Spade, Card R3 Spade,
       Card RA Heart, Card RA Spade]"
  have 1: "5 \<le> length ?a" and 2: "length ?a \<le> 7" by simp_all
  have 3: "distinct ?a" by (simp add: Card_def)
  have 4: "mset ?b = mset ?a" by (simp add: Card_def)
  from evaluate_hand_order_invariant[OF 1 2 3 4] show ?thesis by simp
qed

section \<open>The deck\<close>

lemma remove_card_filter: "remove_card crd d = filter (\<lambda>c. c \<noteq> crd) d"
proof -
  have "(rank c = rank crd \<and> suit c = suit crd) = (c = crd)" for c :: card
    by auto
  then show ?thesis by (simp add: remove_card_def)
qed

lemma remove_cards_filter: "remove_cards ks d = filter (\<lambda>c. c \<notin> set ks) d"
proof (induction ks arbitrary: d)
  case Nil
  show ?case by (simp add: remove_cards_def)
next
  case (Cons k ks)
  have "remove_cards (k # ks) d = remove_cards ks (remove_card k d)"
    by (simp add: remove_cards_def)
  also have "\<dots> = filter (\<lambda>c. c \<notin> set ks) (filter (\<lambda>c. c \<noteq> k) d)"
    by (simp only: Cons.IH remove_card_filter)
  also have "\<dots> = filter (\<lambda>c. c \<notin> set (k # ks)) d"
    by (simp add: conj_commute)
  finally show ?case .
qed

lemma Deck_length: "length Deck = 52"
  by (simp add: Deck_def SUITS_def RANKS_def)

lemma Deck_distinct: "distinct Deck"
  by (simp add: Deck_def SUITS_def RANKS_def Card_def)

lemma Card_in_Deck: "Card r s \<in> set Deck"
  by (cases r; cases s; simp add: Deck_def SUITS_def RANKS_def)

lemma Deck_all: "c \<in> set Deck"
proof -
  have "c = Card (rank c) (suit c)" by (simp add: Card_def)
  then show ?thesis using Card_in_Deck[of "rank c" "suit c"] by simp
qed

lemma Deck_UNIV: "set Deck = UNIV"
  using Deck_all by auto

lemma card_UNIV_cards: "card (UNIV :: card set) = 52"
  using distinct_card[OF Deck_distinct] by (simp add: Deck_UNIV Deck_length)

lemma finite_cards: "finite (A :: card set)"
proof -
  have "finite (set Deck)" by simp
  then have "finite (UNIV :: card set)" by (simp only: Deck_UNIV)
  then show ?thesis using finite_subset[of A UNIV] by simp
qed

lemma remove_cards_distinct: "distinct d \<Longrightarrow> distinct (remove_cards ks d)"
  by (simp add: remove_cards_filter)

lemma remove_cards_set: "set (remove_cards ks d) = set d - set ks"
  by (auto simp: remove_cards_filter)

lemma remove_cards_length_distinct:
  assumes "distinct d" and "distinct ks" and "set ks \<subseteq> set d"
  shows "length (remove_cards ks d) = length d - length ks"
proof -
  have "length (remove_cards ks d) = card (set d - set ks)"
    using distinct_card[OF remove_cards_distinct[OF assms(1), of ks]]
    by (simp add: remove_cards_set)
  also have "\<dots> = card (set d) - card (set ks)"
    using assms(3) by (simp add: card_Diff_subset)
  also have "\<dots> = length d - length ks"
    using assms(1,2) by (simp add: distinct_card)
  finally show ?thesis .
qed

lemma remove_cards_Deck_length:
  "length (remove_cards ks Deck) = 52 - card (set ks)"
proof -
  have "length (remove_cards ks Deck) = card (set Deck - set ks)"
    using distinct_card[OF remove_cards_distinct[OF Deck_distinct, of ks]]
    by (simp add: remove_cards_set)
  also have "\<dots> = card (set Deck) - card (set ks)"
    by (simp add: card_Diff_subset Deck_UNIV)
  also have "\<dots> = 52 - card (set ks)"
    by (simp add: Deck_UNIV card_UNIV_cards)
  finally show ?thesis .
qed

section \<open>Sampling\<close>

lemma sample_pool_mset:
  "k \<le> length pool \<Longrightarrow> sample_pool g pool k = (xs, g')
     \<Longrightarrow> length xs = k \<and> mset xs \<subseteq># mset pool"
proof (induction k arbitrary: g pool xs g')
  case 0
  then show ?case by simp
next
  case (Suc k)
  define j where "j = g 0 mod length pool"
  define pool' where "pool' = take j pool @ drop (Suc j) pool"
  from Suc.prems(1) have ne: "0 < length pool" by (cases pool) simp_all
  then have j: "j < length pool" by (simp add: j_def)
  have split: "pool = take j pool @ pool ! j # drop (Suc j) pool"
    using j by (rule id_take_nth_drop)
  have len: "length pool' = length pool - 1"
    using j by (simp add: pool'_def)
  have ms: "mset pool = add_mset (pool ! j) (mset pool')"
  proof -
    have "mset pool = mset (take j pool @ pool ! j # drop (Suc j) pool)"
      using split by simp
    then show ?thesis by (simp add: pool'_def)
  qed
  obtain rest g1 where r: "sample_pool (\<lambda>i. g (Suc i)) pool' k = (rest, g1)"
    by (cases "sample_pool (\<lambda>i. g (Suc i)) pool' k") auto
  have kl: "k \<le> length pool'" using Suc.prems(1) len by simp
  from Suc.IH[OF kl r] have ih: "length rest = k" "mset rest \<subseteq># mset pool'" by simp_all
  from Suc.prems(2) r have xs: "xs = pool ! j # rest"
    by (simp add: j_def[symmetric] pool'_def[symmetric] Let_def)
  show ?case using ih ms by (simp add: xs)
qed

lemma mset_subset_distinct:
  assumes "mset xs \<subseteq># mset ys" and "distinct ys"
  shows "distinct xs"
proof -
  have "count (mset xs) a \<le> 1" for a
  proof -
    have "count (mset xs) a \<le> count (mset ys) a"
      using assms(1) by (rule mset_subset_eq_count)
    also have "\<dots> \<le> 1" using assms(2) by (simp add: distinct_count_atmost_1)
    finally show ?thesis .
  qed
  then have "count (mset xs) a = (if a \<in> set xs then 1 else 0)" for a
    using count_eq_zero_iff[of "mset xs" a] le_Suc_eq[of "count (mset xs) a" 0]
    by (auto split: if_splits)
  then show ?thesis by (simp add: distinct_count_atmost_1)
qed

lemma sample_ok:
  assumes "0 \<le> n" and "n \<le> int (length d)"
  shows "\<exists>xs g'. sample g d n = Inr (xs, g') \<and> length xs = nat n
           \<and> mset xs \<subseteq># mset d"
proof -
  obtain xs g' where r: "sample_pool g d (nat n) = (xs, g')"
    by (cases "sample_pool g d (nat n)") auto
  have "nat n \<le> length d" using assms by simp
  from sample_pool_mset[OF this r] r assms show ?thesis
    by (simp add: sample_def)
qed

lemma sample_error: "n < 0 \<or> int (length d) < n \<Longrightarrow> sample g d n = Inl ValueError"
  by (simp add: sample_def)

lemma draw_ok:
  assumes "0 \<le> n" and "n \<le> int (length d)"
  shows "\<exists>xs g'. draw g d n = Inr (xs, d, g') \<and> length xs = nat n
           \<and> mset xs \<subseteq># mset d"
  using sample_ok[OF assms, of g] by (auto simp: draw_def)

lemma draw_error: "n < 0 \<or> int (length d) < n \<Longrightarrow> draw g d n = Inl ValueError"
  by (simp add: draw_def sample_error)

section \<open>Drawing from the deck\<close>

text \<open>
  C10. Every \<open>Deck\<close> object holds pairwise different cards: it starts as the 52 cards and
  \<open>remove_cards\<close> only filters (lemmas \<open>Deck_distinct\<close>, \<open>remove_cards_distinct\<close>). For such
  a deck and a number \<open>n\<close> of cards from 0 up to the size of the deck, \<open>draw\<close> returns \<open>n\<close>
  pairwise different cards, each a card of the deck, and the deck's list of cards after
  the call is the one before it.
\<close>

theorem draw_distinct_members:
  assumes "distinct d" and "0 \<le> n" and "n \<le> int (length d)"
  shows "\<exists>drawn d' g'. draw g d n = Inr (drawn, d', g') \<and> d' = d
           \<and> int (length drawn) = n \<and> distinct drawn \<and> set drawn \<subseteq> set d"
proof -
  from draw_ok[OF assms(2,3), of g] obtain xs g' where
    r: "draw g d n = Inr (xs, d, g')" "length xs = nat n" "mset xs \<subseteq># mset d" by blast
  have "distinct xs" using r(3) assms(1) by (rule mset_subset_distinct)
  moreover have "set xs \<subseteq> set d" using set_mset_mono[OF r(3)] by simp
  moreover have "int (length xs) = n" using r(2) assms(2) by simp
  ultimately show ?thesis using r(1) by blast
qed

text \<open>Two cards drawn from the deck without the two aces of spades and hearts.\<close>

theorem draw_distinct_members_witness:
  "\<exists>drawn g'. draw (\<lambda>i. 7 * i + 3) (remove_cards [Card RA Spade, Card RA Heart] Deck) 2
       = Inr (drawn, remove_cards [Card RA Spade, Card RA Heart] Deck, g')
     \<and> int (length drawn) = 2 \<and> distinct drawn
     \<and> set drawn \<subseteq> set (remove_cards [Card RA Spade, Card RA Heart] Deck)"
proof -
  let ?d = "remove_cards [Card RA Spade, Card RA Heart] Deck"
  have 1: "distinct ?d" by (rule remove_cards_distinct[OF Deck_distinct])
  have "card (set [Card RA Spade, Card RA Heart]) \<le> 2"
    using card_length[of "[Card RA Spade, Card RA Heart]"] by simp
  then have 3: "2 \<le> int (length ?d)" by (simp add: remove_cards_Deck_length)
  from draw_distinct_members[OF 1 _ 3, of "\<lambda>i. 7 * i + 3"] show ?thesis by auto
qed

section \<open>One trial\<close>

lemma py_max_ok: "hands \<noteq> [] \<Longrightarrow> \<exists>b. py_max hands = Inr b"
  by (cases hands) (simp_all add: py_max_def)

lemma py_max_empty: "py_max [] = Inl ValueError"
  by (simp add: py_max_def)

lemma deal_opponents_ok:
  "distinct d \<Longrightarrow> 2 * n \<le> length d \<Longrightarrow>
   \<exists>holes hands d' g'. deal_opponents n full d g = Inr (holes, hands, d', g')
     \<and> length holes = n \<and> length hands = n \<and> (\<forall>h\<in>set holes. length h = 2)
     \<and> distinct (concat holes) \<and> set (concat holes) \<subseteq> set d"
proof (induction n arbitrary: d g)
  case 0
  then show ?case by simp
next
  case (Suc n)
  have "(2::int) \<le> int (length d)" using Suc.prems(2) by simp
  from draw_ok[OF _ this, of g] obtain hole g1 where
    dr: "draw g d 2 = Inr (hole, d, g1)" "length hole = 2" "mset hole \<subseteq># mset d" by auto
  have hd: "distinct hole" using dr(3) Suc.prems(1) by (rule mset_subset_distinct)
  have hs: "set hole \<subseteq> set d" using set_mset_mono[OF dr(3)] by simp
  obtain h where ev: "evaluate_hand (hole @ full) = Inr h"
    using evaluate_hand_total by blast
  let ?d2 = "remove_cards hole d"
  have d2: "distinct ?d2" using Suc.prems(1) by (rule remove_cards_distinct)
  have l2: "length ?d2 = length d - 2"
    using remove_cards_length_distinct[OF Suc.prems(1) hd hs] dr(2) by simp
  have "2 * n \<le> length ?d2" using l2 Suc.prems(2) by simp
  from Suc.IH[OF d2 this, of g1] obtain holes hands d' g' where
    ih: "deal_opponents n full ?d2 g1 = Inr (holes, hands, d', g')"
      "length holes = n" "length hands = n" "\<forall>h\<in>set holes. length h = 2"
      "distinct (concat holes)" "set (concat holes) \<subseteq> set ?d2" by blast
  show ?case
  proof (intro exI conjI)
    show "deal_opponents (Suc n) full d g = Inr (hole # holes, h # hands, d', g')"
      by (simp add: dr(1) ev ih(1))
    show "length (hole # holes) = Suc n" by (simp add: ih(2))
    show "length (h # hands) = Suc n" by (simp add: ih(3))
    show "\<forall>x\<in>set (hole # holes). length x = 2" using ih(4) dr(2) by simp
    show "distinct (concat (hole # holes))"
      using hd ih(5,6) by (auto simp: remove_cards_set)
    show "set (concat (hole # holes)) \<subseteq> set d"
      using hs ih(6) by (auto simp: remove_cards_set)
  qed
qed

lemma deal_opponents_error:
  "distinct d \<Longrightarrow> length d < 2 * n \<Longrightarrow> deal_opponents n full d g = Inl ValueError"
proof (induction n arbitrary: d g)
  case 0
  then show ?case by simp
next
  case (Suc n)
  show ?case
  proof (cases "length d < 2")
    case True
    then have "draw g d 2 = Inl ValueError" by (simp add: draw_error)
    then show ?thesis by simp
  next
    case False
    then have "(2::int) \<le> int (length d)" by simp
    from draw_ok[OF _ this, of g] obtain hole g1 where
      dr: "draw g d 2 = Inr (hole, d, g1)" "length hole = 2" "mset hole \<subseteq># mset d" by auto
    have hd: "distinct hole" using dr(3) Suc.prems(1) by (rule mset_subset_distinct)
    have hs: "set hole \<subseteq> set d" using set_mset_mono[OF dr(3)] by simp
    obtain h where ev: "evaluate_hand (hole @ full) = Inr h"
      using evaluate_hand_total by blast
    let ?d2 = "remove_cards hole d"
    have d2: "distinct ?d2" using Suc.prems(1) by (rule remove_cards_distinct)
    have l2: "length ?d2 = length d - 2"
      using remove_cards_length_distinct[OF Suc.prems(1) hd hs] dr(2) by simp
    have "length ?d2 < 2 * n" using l2 Suc.prems(2) False by simp
    from Suc.IH[OF d2 this, of g1] show ?thesis by (simp add: dr(1) ev)
  qed
qed

lemma first_draw:
  assumes "nat (5 - int (length community)) \<le> length d" and "distinct d"
  shows "\<exists>rc g1. (if 5 - int (length community) > 0 then draw g d (5 - int (length community))
                    else Inr ([], d, g)) = Inr (rc, d, g1)
           \<and> length rc = nat (5 - int (length community)) \<and> distinct rc \<and> set rc \<subseteq> set d"
proof (cases "5 - int (length community) > 0")
  case True
  have "5 - int (length community) \<le> int (length d)" using assms(1) by simp
  from draw_ok[OF _ this, of g] True obtain rc g1 where
    dr: "draw g d (5 - int (length community)) = Inr (rc, d, g1)"
      "length rc = nat (5 - int (length community))" "mset rc \<subseteq># mset d" by auto
  have "distinct rc" using dr(3) assms(2) by (rule mset_subset_distinct)
  moreover have "set rc \<subseteq> set d" using set_mset_mono[OF dr(3)] by simp
  ultimately show ?thesis using dr(1,2) True by auto
next
  case False
  then show ?thesis by auto
qed

lemma run_trial_ok:
  assumes "nat (5 - int (length community)) + 2 * nat opp
             \<le> length (remove_cards (hole @ community) Deck)"
    and "1 \<le> opp"
  shows "\<exists>t g' rc. run_trial hole community opp g = Inr (t, g')
     \<and> full_community t = community @ rc
     \<and> length rc = nat (5 - int (length community))
     \<and> length (opponent_holes t) = nat opp
     \<and> (\<forall>h\<in>set (opponent_holes t). length h = 2)
     \<and> distinct (rc @ concat (opponent_holes t))
     \<and> set (rc @ concat (opponent_holes t)) \<inter> set (hole @ community) = {}"
proof -
  let ?d0 = "remove_cards (hole @ community) Deck"
  have d0: "distinct ?d0" by (rule remove_cards_distinct[OF Deck_distinct])
  have "nat (5 - int (length community)) \<le> length ?d0" using assms(1) by simp
  from first_draw[OF this d0, of g] obtain rc g1 where
    A: "(if 5 - int (length community) > 0 then draw g ?d0 (5 - int (length community))
         else Inr ([], ?d0, g)) = Inr (rc, ?d0, g1)"
    and rc: "length rc = nat (5 - int (length community))" "distinct rc" "set rc \<subseteq> set ?d0"
    by blast
  let ?full = "community @ rc"
  let ?d2 = "remove_cards rc ?d0"
  obtain mine where ev: "evaluate_hand (hole @ ?full) = Inr mine"
    using evaluate_hand_total by blast
  have d2: "distinct ?d2" using d0 by (rule remove_cards_distinct)
  have l2: "length ?d2 = length ?d0 - length rc"
    by (rule remove_cards_length_distinct[OF d0 rc(2,3)])
  have "2 * nat opp \<le> length ?d2" using l2 rc(1) assms(1) by simp
  from deal_opponents_ok[OF d2 this, of ?full g1] obtain holes hands d3 g2 where
    dl: "deal_opponents (nat opp) ?full ?d2 g1 = Inr (holes, hands, d3, g2)"
      and hl: "length holes = nat opp" "length hands = nat opp"
        "\<forall>h\<in>set holes. length h = 2"
      and hd: "distinct (concat holes)" "set (concat holes) \<subseteq> set ?d2" by blast
  have "hands \<noteq> []" using hl(2) assms(2) by auto
  from py_max_ok[OF this] obtain best where pm: "py_max hands = Inr best" by blast
  let ?t = "\<lparr>full_community = ?full, my_hand = mine, opponent_holes = holes,
             opponent_hands = hands, best_opponent_hand = best\<rparr>"
  have R: "run_trial hole community opp g = Inr (?t, g2)"
    unfolding run_trial_def Let_def
    by (simp only: A ev dl pm sum.case prod.case)
  have D: "distinct (rc @ concat holes)"
    using rc(2) hd by (auto simp: remove_cards_set)
  have I: "set (rc @ concat holes) \<inter> set (hole @ community) = {}"
    using rc(3) hd(2) by (auto simp: remove_cards_set)
  show ?thesis
  proof (intro exI conjI)
    show "run_trial hole community opp g = Inr (?t, g2)" by (rule R)
    show "full_community ?t = community @ rc" by simp
    show "length rc = nat (5 - int (length community))" by (rule rc(1))
    show "length (opponent_holes ?t) = nat opp" by (simp add: hl(1))
    show "\<forall>h\<in>set (opponent_holes ?t). length h = 2" using hl(3) by simp
    show "distinct (rc @ concat (opponent_holes ?t))" using D by simp
    show "set (rc @ concat (opponent_holes ?t)) \<inter> set (hole @ community) = {}"
      using I by simp
  qed
qed

lemma run_trial_deck_error:
  assumes "length (remove_cards (hole @ community) Deck)
             < nat (5 - int (length community)) + 2 * nat opp"
  shows "run_trial hole community opp g = Inl ValueError"
proof -
  let ?d0 = "remove_cards (hole @ community) Deck"
  have d0: "distinct ?d0" by (rule remove_cards_distinct[OF Deck_distinct])
  show ?thesis
  proof (cases "nat (5 - int (length community)) \<le> length ?d0")
    case False
    then have pos: "0 < 5 - int (length community)"
      and less: "int (length ?d0) < 5 - int (length community)" by simp_all
    have "draw g ?d0 (5 - int (length community)) = Inl ValueError"
      using less by (intro draw_error disjI2)
    then have "(if 5 - int (length community) > 0 then draw g ?d0 (5 - int (length community))
         else Inr ([], ?d0, g)) = Inl ValueError"
      using pos by (simp only: if_True)
    then show ?thesis
      unfolding run_trial_def Let_def by (simp only: sum.case)
  next
    case True
    from first_draw[OF this d0, of g] obtain rc g1 where
      A: "(if 5 - int (length community) > 0 then draw g ?d0 (5 - int (length community))
           else Inr ([], ?d0, g)) = Inr (rc, ?d0, g1)"
      and rc: "length rc = nat (5 - int (length community))" "distinct rc"
        "set rc \<subseteq> set ?d0"
      by blast
    let ?full = "community @ rc"
    let ?d2 = "remove_cards rc ?d0"
    obtain mine where ev: "evaluate_hand (hole @ ?full) = Inr mine"
      using evaluate_hand_total by blast
    have d2: "distinct ?d2" using d0 by (rule remove_cards_distinct)
    have l2: "length ?d2 = length ?d0 - length rc"
      by (rule remove_cards_length_distinct[OF d0 rc(2,3)])
    have "length ?d2 < 2 * nat opp" using l2 rc(1) assms True by simp
    from deal_opponents_error[OF d2 this, of ?full g1]
    have dl: "deal_opponents (nat opp) ?full ?d2 g1 = Inl ValueError" .
    show ?thesis
      unfolding run_trial_def Let_def
      by (simp only: A ev dl sum.case prod.case)
  qed
qed

lemma valid_deck_size:
  assumes "length hole = 2" and "length community \<le> 5" and "distinct (hole @ community)"
    and "1 \<le> opp" and "opp \<le> 22"
  shows "nat (5 - int (length community)) + 2 * nat opp
           \<le> length (remove_cards (hole @ community) Deck)"
proof -
  have "card (set (hole @ community)) = length (hole @ community)"
    using assms(3) by (rule distinct_card)
  then have "length (remove_cards (hole @ community) Deck) = 50 - length community"
    using assms(1) by (simp add: remove_cards_Deck_length)
  then show ?thesis using assms(2,4,5) by simp
qed

text \<open>
  C9. In a trial of a simulation with two hole cards, at most five community cards, no
  card twice among them, and 1 to 22 opponents (more opponents exhaust the deck), the
  trial returns, the community is completed to five cards that begin with the known ones,
  every opponent holds two cards, and the caller's hole cards, the full community and
  all opponents' hole cards together contain no card twice.
\<close>

theorem trial_cards_distinct:
  assumes "length hole = 2" and "length community \<le> 5" and "distinct (hole @ community)"
    and "1 \<le> opp" and "opp \<le> 22"
  shows "\<exists>t g'. run_trial hole community opp g = Inr (t, g')
     \<and> length (full_community t) = 5
     \<and> take (length community) (full_community t) = community
     \<and> int (length (opponent_holes t)) = opp
     \<and> (\<forall>h\<in>set (opponent_holes t). length h = 2)
     \<and> distinct (hole @ full_community t @ concat (opponent_holes t))"
proof -
  from run_trial_ok[OF valid_deck_size[OF assms] assms(4), of g] obtain t g' rc where
    r: "run_trial hole community opp g = Inr (t, g')"
      "full_community t = community @ rc"
      "length rc = nat (5 - int (length community))"
      "length (opponent_holes t) = nat opp"
      "\<forall>h\<in>set (opponent_holes t). length h = 2"
      "distinct (rc @ concat (opponent_holes t))"
      "set (rc @ concat (opponent_holes t)) \<inter> set (hole @ community) = {}"
    by blast
  have 1: "length (full_community t) = 5" using r(2,3) assms(2) by simp
  have 2: "take (length community) (full_community t) = community" using r(2) by simp
  have 3: "int (length (opponent_holes t)) = opp" using r(4) assms(4) by simp
  have "distinct ((hole @ community) @ (rc @ concat (opponent_holes t)))"
    using assms(3) r(6,7) by (simp only: distinct_append) blast
  then have 4: "distinct (hole @ full_community t @ concat (opponent_holes t))"
    by (simp add: r(2))
  from r(1) 1 2 3 r(5) 4 show ?thesis by blast
qed

text \<open>Pocket aces before the flop against three opponents.\<close>

theorem trial_cards_distinct_witness:
  "\<exists>t g'. run_trial [Card RA Spade, Card RA Heart] [] 3 (\<lambda>i. 5 * i + 1) = Inr (t, g')
     \<and> length (full_community t) = 5
     \<and> int (length (opponent_holes t)) = 3
     \<and> distinct ([Card RA Spade, Card RA Heart] @ full_community t
          @ concat (opponent_holes t))"
proof -
  have 1: "length [Card RA Spade, Card RA Heart] = 2" by simp
  have 2: "length ([] :: card list) \<le> 5" by simp
  have 3: "distinct ([Card RA Spade, Card RA Heart] @ [])" by (simp add: Card_def)
  from trial_cards_distinct[OF 1 2 3, of 3 "\<lambda>i. 5 * i + 1"] show ?thesis by auto
qed

section \<open>The simulation loop\<close>

lemma tally_cases:
  "tally t (w, ti, l) = (w + 1, ti, l) \<or> tally t (w, ti, l) = (w, ti + 1, l)
     \<or> tally t (w, ti, l) = (w, ti, l + 1)"
  by (simp add: tally_def)

lemma simulate_ok:
  assumes T: "\<And>g. \<exists>t g'. run_trial hole community opp g = Inr (t, g')"
  shows "\<exists>w ti l g'. simulate n hole community opp (w0, t0, l0) g = Inr ((w, ti, l), g')
     \<and> w + ti + l = w0 + t0 + l0 + int n \<and> w0 \<le> w \<and> t0 \<le> ti \<and> l0 \<le> l"
proof (induction n arbitrary: w0 t0 l0 g)
  case 0
  show ?case by simp
next
  case (Suc n)
  from T[of g] obtain t g1 where t: "run_trial hole community opp g = Inr (t, g1)" by blast
  from tally_cases[of t w0 t0 l0] obtain w1 t1 l1 where
    ta: "tally t (w0, t0, l0) = (w1, t1, l1)" and
    s1: "w1 + t1 + l1 = w0 + t0 + l0 + 1" "w0 \<le> w1" "t0 \<le> t1" "l0 \<le> l1"
    by auto
  from Suc.IH[of w1 t1 l1 g1] obtain w ti l g' where
    ih: "simulate n hole community opp (w1, t1, l1) g1 = Inr ((w, ti, l), g')"
      "w + ti + l = w1 + t1 + l1 + int n" "w1 \<le> w" "t1 \<le> ti" "l1 \<le> l" by blast
  have "simulate (Suc n) hole community opp (w0, t0, l0) g = Inr ((w, ti, l), g')"
    by (simp add: t ta ih(1))
  moreover have "w + ti + l = w0 + t0 + l0 + int (Suc n)" using ih(2) s1(1) by simp
  moreover have "w0 \<le> w" "t0 \<le> ti" "l0 \<le> l" using ih(3,4,5) s1(2,3,4) by simp_all
  ultimately show ?case by blast
qed

lemma simulate_error:
  assumes "\<And>g. run_trial hole community opp g = Inl e" and "0 < n"
  shows "simulate n hole community opp counters g = Inl e"
proof -
  from assms(2) obtain m where "n = Suc m" by (cases n) simp_all
  then show ?thesis by (simp add: assms(1))
qed

lemma calculate_win_probability_ok:
  assumes T: "\<And>g. \<exists>t g'. run_trial hole community opp g = Inr (t, g')" and "1 \<le> n"
  shows "\<exists>r g' w ti l. calculate_win_probability rnd hole community opp n g = Inr (r, g')
      \<and> w + ti + l = n \<and> 0 \<le> w \<and> 0 \<le> ti \<and> 0 \<le> l
      \<and> win_rate r = rnd (real_of_int w / real_of_int n)
      \<and> tie_rate r = rnd (real_of_int ti / real_of_int n)
      \<and> loss_rate r = rnd (real_of_int l / real_of_int n)
      \<and> simulations r = n
      \<and> (\<exists>h. evaluate_hand (hole @ community) = Inr h \<and> current_hand r = hand_name (fst h))"
proof -
  from simulate_ok[of hole community opp "nat n" 0 0 0 g, OF T] obtain w ti l g' where
    s: "simulate (nat n) hole community opp (0, 0, 0) g = Inr ((w, ti, l), g')"
      "w + ti + l = 0 + 0 + 0 + int (nat n)" "0 \<le> w" "0 \<le> ti" "0 \<le> l" by blast
  obtain h where ev: "evaluate_hand (hole @ community) = Inr h"
    using evaluate_hand_total by blast
  let ?r = "\<lparr>win_rate = rnd (real_of_int w / real_of_int n),
             tie_rate = rnd (real_of_int ti / real_of_int n),
             loss_rate = rnd (real_of_int l / real_of_int n),
             simulations = n, current_hand = hand_name (fst h)\<rparr>"
  have n0: "n \<noteq> 0" using assms(2) by simp
  have R: "calculate_win_probability rnd hole community opp n g = Inr (?r, g')"
    by (simp add: calculate_win_probability_def s(1) true_div_def n0 ev)
  have sum: "w + ti + l = n" using s(2) assms(2) by simp
  show ?thesis
  proof (intro exI conjI)
    show "calculate_win_probability rnd hole community opp n g = Inr (?r, g')" by (rule R)
    show "w + ti + l = n" by (rule sum)
    show "0 \<le> w" "0 \<le> ti" "0 \<le> l" by (rule s(3) s(4) s(5))+
    show "win_rate ?r = rnd (real_of_int w / real_of_int n)" by simp
    show "tie_rate ?r = rnd (real_of_int ti / real_of_int n)" by simp
    show "loss_rate ?r = rnd (real_of_int l / real_of_int n)" by simp
    show "simulations ?r = n" by simp
    show "evaluate_hand (hole @ community) = Inr h" by (rule ev)
    show "current_hand ?r = hand_name (fst h)" by simp
  qed
qed

lemma calculate_win_probability_error:
  assumes "\<And>g. run_trial hole community opp g = Inl e" and "1 \<le> n"
  shows "calculate_win_probability rnd hole community opp n g = Inl e"
proof -
  have "0 < nat n" using assms(2) by simp
  from simulate_error[of hole community opp e "nat n", OF assms(1) this]
  show ?thesis by (simp add: calculate_win_probability_def)
qed

section \<open>Counters and rates\<close>

lemma rounded_nonneg:
  fixes u :: real
  assumes rnd: "\<And>x. \<bar>rnd x - x\<bar> \<le> u * \<bar>x\<bar>" and "0 \<le> x"
  shows "x * (1 - u) \<le> rnd x" and "rnd x \<le> x * (1 + u)"
  using rnd[of x] assms(2) by (simp_all add: abs_le_iff algebra_simps)

lemma cube_upper:
  fixes u :: real
  assumes "0 \<le> u" and "u \<le> 1"
  shows "(1 + u) * (1 + u) * (1 + u) \<le> 1 + 7 * u"
proof -
  have uu: "u * u \<le> u" using assms mult_left_le_one_le[of u u] by simp
  have "u * u * u \<le> u * u" using assms mult_left_le_one_le[of "u * u" u] by simp
  then have uuu: "u * u * u \<le> u" using uu by simp
  have "(1 + u) * (1 + u) * (1 + u) = 1 + 3 * u + 3 * (u * u) + u * u * u"
    by (simp add: algebra_simps)
  then show ?thesis using uu uuu by simp
qed

lemma cube_lower:
  fixes u :: real
  assumes "0 \<le> u" and "u \<le> 1"
  shows "1 - 7 * u \<le> (1 - u) * (1 - u) * (1 - u)"
proof -
  have uu: "u * u \<le> u" using assms mult_left_le_one_le[of u u] by simp
  have "u * u * u \<le> u * u" using assms mult_left_le_one_le[of "u * u" u] by simp
  then have uuu: "u * u * u \<le> u" using uu by simp
  have u2: "0 \<le> u * u" using assms by simp
  have "(1 - u) * (1 - u) * (1 - u) = 1 - 3 * u + 3 * (u * u) - u * u * u"
    by (simp add: algebra_simps)
  moreover have "1 - 7 * u \<le> 1 - 3 * u + 3 * (u * u) - u * u * u"
    using u2 uuu assms(1) by linarith
  ultimately show ?thesis by (simp only:)
qed

lemma rounded_sum_bound:
  fixes a b c u :: real
  assumes rnd: "\<And>x. \<bar>rnd x - x\<bar> \<le> u * \<bar>x\<bar>"
    and a: "0 \<le> a" and b: "0 \<le> b" and c: "0 \<le> c" and s: "a + b + c = 1"
    and u1: "u \<le> 1"
  shows "\<bar>rnd a + rnd b + rnd c - 1\<bar> \<le> 7 * u"
    and "\<bar>rnd (rnd (rnd a + rnd b) + rnd c) - 1\<bar> \<le> 7 * u"
proof -
  have u0: "0 \<le> u" using rnd[of 1] by simp
  define U where "U = 1 + u"
  define L where "L = 1 - u"
  have U1: "1 \<le> U" and L0: "0 \<le> L" and L1: "L \<le> 1" and U0: "0 \<le> U"
    using u0 u1 by (simp_all add: U_def L_def)
  have R: "x * L \<le> rnd x \<and> rnd x \<le> x * U" if "0 \<le> x" for x
    using rounded_nonneg[of rnd u x, OF rnd that] by (simp add: U_def L_def)
  have N: "0 \<le> rnd x" if "0 \<le> x" for x
  proof -
    have "0 \<le> x * L" using that L0 by simp
    then show ?thesis using R[OF that] by simp
  qed
  note Ra = R[OF a] and Rb = R[OF b] and Rc = R[OF c]
  \<comment> \<open>the exact sum of the three rounded rates\<close>
  have "rnd a + rnd b + rnd c \<le> (a + b + c) * U" using Ra Rb Rc by (simp add: algebra_simps)
  moreover have "(a + b + c) * L \<le> rnd a + rnd b + rnd c"
    using Ra Rb Rc by (simp add: algebra_simps)
  ultimately have "\<bar>rnd a + rnd b + rnd c - 1\<bar> \<le> u"
    by (simp add: s U_def L_def abs_le_iff)
  then show "\<bar>rnd a + rnd b + rnd c - 1\<bar> \<le> 7 * u" using u0 by simp
  \<comment> \<open>the sum computed with rounded additions\<close>
  define p where "p = rnd a + rnd b"
  have p0: "0 \<le> p" using N[OF a] N[OF b] by (simp add: p_def)
  have pU: "p \<le> (a + b) * U" and pL: "(a + b) * L \<le> p"
    using Ra Rb by (simp_all add: p_def algebra_simps)
  define q where "q = rnd p"
  have q0: "0 \<le> q" using N[OF p0] by (simp add: q_def)
  have "q \<le> p * U" using R[OF p0] by (simp add: q_def)
  also have "\<dots> \<le> (a + b) * U * U" using pU U0 by (rule mult_right_mono)
  finally have qU: "q \<le> (a + b) * U * U" .
  have "(a + b) * L * L \<le> p * L" using pL L0 by (rule mult_right_mono)
  also have "\<dots> \<le> q" using R[OF p0] by (simp add: q_def)
  finally have qL: "(a + b) * L * L \<le> q" .
  have cU: "rnd c \<le> c * U * U"
  proof -
    have "c * U * 1 \<le> c * U * U" using c U0 U1 by (intro mult_left_mono) simp_all
    then show ?thesis using Rc by simp
  qed
  have cL: "c * L * L \<le> rnd c"
  proof -
    have "c * L * L \<le> c * L * 1" using c L0 L1 by (intro mult_left_mono) simp_all
    then show ?thesis using Rc by simp
  qed
  define t where "t = q + rnd c"
  have t0: "0 \<le> t" using q0 N[OF c] by (simp add: t_def)
  have "t \<le> (a + b) * U * U + c * U * U" using qU cU by (simp add: t_def)
  also have "\<dots> = (a + b + c) * U * U" by (simp add: algebra_simps)
  finally have tU: "t \<le> U * U" by (simp add: s)
  have "(a + b + c) * L * L = (a + b) * L * L + c * L * L" by (simp add: algebra_simps)
  also have "\<dots> \<le> t" using qL cL by (simp add: t_def)
  finally have tL: "L * L \<le> t" by (simp add: s)
  have "rnd t \<le> t * U" using R[OF t0] by simp
  also have "\<dots> \<le> U * U * U" using tU U0 by (rule mult_right_mono)
  also have "\<dots> \<le> 1 + 7 * u" unfolding U_def using u0 u1 by (rule cube_upper)
  finally have fU: "rnd t \<le> 1 + 7 * u" .
  have "1 - 7 * u \<le> L * L * L" unfolding L_def using u0 u1 by (rule cube_lower)
  also have "\<dots> \<le> t * L" using tL L0 by (rule mult_right_mono)
  also have "\<dots> \<le> rnd t" using R[OF t0] by simp
  finally have fL: "1 - 7 * u \<le> rnd t" .
  from fU fL have "\<bar>rnd t - 1\<bar> \<le> 7 * u" by (simp add: abs_le_iff)
  then show "\<bar>rnd (rnd (rnd a + rnd b) + rnd c) - 1\<bar> \<le> 7 * u"
    by (simp add: t_def q_def p_def)
qed

text \<open>
  C7. Every trial adds one to exactly one of the three counters. For a valid call (two
  hole cards, at most five community cards, no card twice, 1 to 22 opponents, at least
  one trial) the call returns, the counters are non-negative and sum to the number of
  trials, and each rate is the rounded quotient of its counter by the number of trials.
  The rounding of float operations is the parameter \<open>rnd\<close>, with relative error at most
  \<open>u\<close>; when \<open>7 * u * trials \<le> 1\<close> (for IEEE doubles, \<open>u = 2\<^sup>-\<^sup>5\<^sup>3\<close>) the three rates sum to 1
  within \<open>1 / trials\<close>, both as an exact sum and as the sum formed with two rounded
  additions.
\<close>

theorem rates_sum_to_one:
  assumes "length hole = 2" and "length community \<le> 5" and "distinct (hole @ community)"
    and "1 \<le> opp" and "opp \<le> 22" and "1 \<le> n"
    and rnd: "\<And>x. \<bar>rnd x - x\<bar> \<le> u * \<bar>x\<bar>" and u: "7 * u * real_of_int n \<le> 1"
  shows "(tally t (w0, t0, l0) = (w0 + 1, t0, l0) \<or> tally t (w0, t0, l0) = (w0, t0 + 1, l0)
            \<or> tally t (w0, t0, l0) = (w0, t0, l0 + 1))
     \<and> (\<exists>r g' w ti l. calculate_win_probability rnd hole community opp n g = Inr (r, g')
          \<and> w + ti + l = n \<and> 0 \<le> w \<and> 0 \<le> ti \<and> 0 \<le> l
          \<and> simulations r = n
          \<and> win_rate r = rnd (real_of_int w / real_of_int n)
          \<and> tie_rate r = rnd (real_of_int ti / real_of_int n)
          \<and> loss_rate r = rnd (real_of_int l / real_of_int n)
          \<and> \<bar>win_rate r + tie_rate r + loss_rate r - 1\<bar> \<le> 1 / real_of_int n
          \<and> \<bar>rnd (rnd (win_rate r + tie_rate r) + loss_rate r) - 1\<bar> \<le> 1 / real_of_int n)"
proof
  show "tally t (w0, t0, l0) = (w0 + 1, t0, l0) \<or> tally t (w0, t0, l0) = (w0, t0 + 1, l0)
            \<or> tally t (w0, t0, l0) = (w0, t0, l0 + 1)" by (rule tally_cases)
next
  have T: "\<exists>t g'. run_trial hole community opp g = Inr (t, g')" for g
    using run_trial_ok[OF valid_deck_size[OF assms(1-5)] assms(4), of g] by blast
  from calculate_win_probability_ok[of hole community opp n rnd g, OF T assms(6)]
  obtain r g' w ti l where
    r: "calculate_win_probability rnd hole community opp n g = Inr (r, g')"
      "w + ti + l = n" "0 \<le> w" "0 \<le> ti" "0 \<le> l"
      "win_rate r = rnd (real_of_int w / real_of_int n)"
      "tie_rate r = rnd (real_of_int ti / real_of_int n)"
      "loss_rate r = rnd (real_of_int l / real_of_int n)"
      "simulations r = n" by blast
  have npos: "0 < real_of_int n" using assms(6) by simp
  have u0: "0 \<le> u" using rnd[of 1] by simp
  have "7 * u * 1 \<le> 7 * u * real_of_int n"
    using u0 assms(6) by (intro mult_left_mono) simp_all
  then have u1: "u \<le> 1" using u u0 by simp
  have tol: "7 * u \<le> 1 / real_of_int n"
    using u npos by (simp add: pos_le_divide_eq)
  have a: "0 \<le> real_of_int w / real_of_int n" using r(3) npos by simp
  have b: "0 \<le> real_of_int ti / real_of_int n" using r(4) npos by simp
  have c: "0 \<le> real_of_int l / real_of_int n" using r(5) npos by simp
  have "real_of_int w / real_of_int n + real_of_int ti / real_of_int n
          + real_of_int l / real_of_int n = real_of_int (w + ti + l) / real_of_int n"
    by (simp add: add_divide_distrib)
  also have "\<dots> = 1" using npos by (simp add: r(2))
  finally have s: "real_of_int w / real_of_int n + real_of_int ti / real_of_int n
          + real_of_int l / real_of_int n = 1" .
  from rounded_sum_bound[of rnd u, OF rnd a b c s u1] tol
  have B1: "\<bar>win_rate r + tie_rate r + loss_rate r - 1\<bar> \<le> 1 / real_of_int n"
    and B2: "\<bar>rnd (rnd (win_rate r + tie_rate r) + loss_rate r) - 1\<bar> \<le> 1 / real_of_int n"
    by (simp_all only: r(6,7,8))
  from r B1 B2 show "\<exists>r g' w ti l. calculate_win_probability rnd hole community opp n g
          = Inr (r, g')
          \<and> w + ti + l = n \<and> 0 \<le> w \<and> 0 \<le> ti \<and> 0 \<le> l
          \<and> simulations r = n
          \<and> win_rate r = rnd (real_of_int w / real_of_int n)
          \<and> tie_rate r = rnd (real_of_int ti / real_of_int n)
          \<and> loss_rate r = rnd (real_of_int l / real_of_int n)
          \<and> \<bar>win_rate r + tie_rate r + loss_rate r - 1\<bar> \<le> 1 / real_of_int n
          \<and> \<bar>rnd (rnd (win_rate r + tie_rate r) + loss_rate r) - 1\<bar> \<le> 1 / real_of_int n"
    by blast
qed

text \<open>Pocket aces against one opponent, 100 trials, with exact arithmetic.\<close>

theorem rates_sum_to_one_witness:
  "\<exists>r g' (w::int) ti l.
     calculate_win_probability id [Card RA Spade, Card RA Heart] [] 1 100 id = Inr (r, g')
     \<and> w + ti + l = 100 \<and> 0 \<le> w \<and> 0 \<le> ti \<and> 0 \<le> l
     \<and> \<bar>win_rate r + tie_rate r + loss_rate r - 1\<bar> \<le> 1 / 100"
proof -
  have 1: "length [Card RA Spade, Card RA Heart] = 2" by simp
  have 2: "length ([] :: card list) \<le> 5" by simp
  have 3: "distinct ([Card RA Spade, Card RA Heart] @ [])" by (simp add: Card_def)
  have 4: "(1::int) \<le> 1" "(1::int) \<le> 22" "(1::int) \<le> 100" by simp_all
  have 5: "\<And>x::real. \<bar>id x - x\<bar> \<le> 0 * \<bar>x\<bar>" by simp
  have 6: "7 * (0::real) * real_of_int 100 \<le> 1" by simp
  from rates_sum_to_one[OF 1 2 3 4 5 6, of undefined 0 0 0 id]
  obtain r g' w ti l where
    A: "calculate_win_probability id [Card RA Spade, Card RA Heart] [] 1 100 id = Inr (r, g')"
    and B: "w + ti + l = (100::int)" "0 \<le> w" "0 \<le> ti" "0 \<le> l"
    and C: "\<bar>win_rate r + tie_rate r + loss_rate r - 1\<bar> \<le> 1 / real_of_int 100"
    by blast
  from C have "\<bar>win_rate r + tie_rate r + loss_rate r - 1\<bar> \<le> 1 / 100" by simp
  with A B show ?thesis by blast
qed

section \<open>What the simulation does with invalid input\<close>

lemma evaluate_hand_two: "evaluate_hand [c, c'] = Inr (0, [])"
  by (simp add: evaluate_hand_def)

text \<open>
  C2 (as stated, refuted). The claim expects a call with a single hole card, and a call
  whose two hole cards are the same card, to be rejected before any trial. Both calls
  (one opponent, one trial) return a result.
\<close>

theorem no_input_validation_counterexample:
  "\<not> isl (calculate_win_probability id [Card RA Spade] [] 1 1 id)
   \<and> \<not> isl (calculate_win_probability id [Card RA Spade, Card RA Spade] [] 1 1 id)"
proof -
  have c1: "card (set ([Card RA Spade] @ [])) = 1" by simp
  have c2: "card (set ([Card RA Spade, Card RA Spade] @ [])) = 1" by simp
  have d1: "nat (5 - int (length ([] :: card list))) + 2 * nat 1
      \<le> length (remove_cards ([Card RA Spade] @ []) Deck)"
    by (simp only: remove_cards_Deck_length c1)
  have d2: "nat (5 - int (length ([] :: card list))) + 2 * nat 1
      \<le> length (remove_cards ([Card RA Spade, Card RA Spade] @ []) Deck)"
    by (simp only: remove_cards_Deck_length c2)
  have T1: "\<exists>t g'. run_trial [Card RA Spade] [] 1 g = Inr (t, g')" for g
    using run_trial_ok[OF d1, of g] by auto
  have T2: "\<exists>t g'. run_trial [Card RA Spade, Card RA Spade] [] 1 g = Inr (t, g')" for g
    using run_trial_ok[OF d2, of g] by auto
  from calculate_win_probability_ok[of "[Card RA Spade]" "[]" 1 1 id id, OF T1]
  have "\<not> isl (calculate_win_probability id [Card RA Spade] [] 1 1 id)" by auto
  moreover
  from calculate_win_probability_ok[of "[Card RA Spade, Card RA Spade]" "[]" 1 1 id id, OF T2]
  have "\<not> isl (calculate_win_probability id [Card RA Spade, Card RA Spade] [] 1 1 id)"
    by auto
  ultimately show ?thesis by simp
qed

text \<open>
  C2 (amended). \<open>calculate_win_probability\<close> checks nothing before the trials. With at
  least one trial and at least one opponent, the only violation that stops it is a deck
  too small: when the 52 cards without the hole and community cards are fewer than the
  missing community cards plus two per opponent, the draw of the first trial raises
  \<open>ValueError\<close> and no result is returned. In every other case, whatever the number
  of hole cards or community cards and whether or not a card occurs twice, the call
  returns a result for the requested number of trials.
\<close>

theorem deck_exhaustion_only:
  assumes "1 \<le> num_simulations" and "1 \<le> num_opponents"
  shows "(length (remove_cards (hole_cards @ community_cards) Deck)
            < nat (5 - int (length community_cards)) + 2 * nat num_opponents
          \<longrightarrow> run_trial hole_cards community_cards num_opponents g = Inl ValueError
              \<and> calculate_win_probability rnd hole_cards community_cards num_opponents
                   num_simulations g = Inl ValueError)
       \<and> (nat (5 - int (length community_cards)) + 2 * nat num_opponents
            \<le> length (remove_cards (hole_cards @ community_cards) Deck)
          \<longrightarrow> (\<exists>r g'. calculate_win_probability rnd hole_cards community_cards num_opponents
                   num_simulations g = Inr (r, g') \<and> simulations r = num_simulations))"
proof (intro conjI impI)
  assume small: "length (remove_cards (hole_cards @ community_cards) Deck)
            < nat (5 - int (length community_cards)) + 2 * nat num_opponents"
  show "run_trial hole_cards community_cards num_opponents g = Inl ValueError"
    using small by (rule run_trial_deck_error)
  have "run_trial hole_cards community_cards num_opponents g' = Inl ValueError" for g'
    using small by (rule run_trial_deck_error)
  then show "calculate_win_probability rnd hole_cards community_cards num_opponents
                   num_simulations g = Inl ValueError"
    using assms(1) by (rule calculate_win_probability_error)
next
  assume big: "nat (5 - int (length community_cards)) + 2 * nat num_opponents
            \<le> length (remove_cards (hole_cards @ community_cards) Deck)"
  have T: "\<exists>t g'. run_trial hole_cards community_cards num_opponents g = Inr (t, g')" for g
    using run_trial_ok[OF big assms(2), of g] by blast
  from calculate_win_probability_ok[of hole_cards community_cards num_opponents
      num_simulations rnd g, OF T assms(1)]
  show "\<exists>r g'. calculate_win_probability rnd hole_cards community_cards num_opponents
                   num_simulations g = Inr (r, g') \<and> simulations r = num_simulations"
    by blast
qed

text \<open>
  Thirty opponents against pocket aces exhaust the deck; a single hole card against one
  opponent does not.
\<close>

theorem deck_exhaustion_only_witness:
  "calculate_win_probability id [Card RA Spade, Card RA Heart] [] 30 1 id = Inl ValueError
   \<and> (\<exists>r g'. calculate_win_probability id [Card RA Spade] [] 1 1 id = Inr (r, g')
         \<and> simulations r = 1)"
proof -
  have c1: "card (set ([Card RA Spade] @ [])) = 1" by simp
  have c2: "card (set ([Card RA Spade, Card RA Heart] @ [])) = 2" by (simp add: Card_def)
  have big: "nat (5 - int (length ([] :: card list))) + 2 * nat 1
      \<le> length (remove_cards ([Card RA Spade] @ []) Deck)"
    by (simp only: remove_cards_Deck_length c1)
  have small: "length (remove_cards ([Card RA Spade, Card RA Heart] @ []) Deck)
      < nat (5 - int (length ([] :: card list))) + 2 * nat 30"
    by (simp only: remove_cards_Deck_length c2)
  have one: "(1::int) \<le> 1" and thirty: "(1::int) \<le> 30" by simp_all
  from deck_exhaustion_only[OF one thirty, of "[Card RA Spade, Card RA Heart]" "[]" id id]
    small
  have A: "calculate_win_probability id [Card RA Spade, Card RA Heart] [] 30 1 id
      = Inl ValueError" by blast
  from deck_exhaustion_only[OF one one, of "[Card RA Spade]" "[]" id id] big
  have B: "\<exists>r g'. calculate_win_probability id [Card RA Spade] [] 1 1 id = Inr (r, g')
         \<and> simulations r = 1" by blast
  from A B show ?thesis by blast
qed

section \<open>The current hand before the flop\<close>

text \<open>
  C3. With pocket aces and no community card, \<open>calculate_win_probability\<close> reports the
  current hand as the name of hand type 0 ("high card"), which is what \<open>evaluate_hand\<close>
  gives for fewer than five cards, and not the text for an incomplete hand that
  \<open>get_hand_strength\<close> returns for the same cards.
\<close>

theorem current_hand_before_flop:
  "(\<exists>r g'. calculate_win_probability id [Card RA Spade, Card RA Heart] [] 1 1 id = Inr (r, g')
       \<and> current_hand r = hand_name 0)
   \<and> hand_name 0 = [0x9AD8, 0x724C]
   \<and> get_hand_strength [Card RA Spade, Card RA Heart] [] = Inr (- 1, not_complete_text)
   \<and> hand_name 0 \<noteq> not_complete_text"
proof -
  have c2: "card (set ([Card RA Spade, Card RA Heart] @ [])) = 2" by (simp add: Card_def)
  have big: "nat (5 - int (length ([] :: card list))) + 2 * nat 1
      \<le> length (remove_cards ([Card RA Spade, Card RA Heart] @ []) Deck)"
    by (simp only: remove_cards_Deck_length c2)
  have T: "\<exists>t g'. run_trial [Card RA Spade, Card RA Heart] [] 1 g = Inr (t, g')" for g
    using run_trial_ok[OF big, of g] by auto
  from calculate_win_probability_ok[of "[Card RA Spade, Card RA Heart]" "[]" 1 1 id id, OF T]
  obtain r g' h where
    r: "calculate_win_probability id [Card RA Spade, Card RA Heart] [] 1 1 id = Inr (r, g')"
      "evaluate_hand ([Card RA Spade, Card RA Heart] @ []) = Inr h"
      "current_hand r = hand_name (fst h)" by auto
  have "h = (0, [])" using r(2) by (simp add: evaluate_hand_two)
  then have "current_hand r = hand_name 0" using r(3) by simp
  with r(1) have A: "\<exists>r g'. calculate_win_probability id [Card RA Spade, Card RA Heart] []
       1 1 id = Inr (r, g') \<and> current_hand r = hand_name 0" by blast
  have B: "hand_name 0 = [0x9AD8, 0x724C]" by (simp add: hand_name_def)
  have C: "get_hand_strength [Card RA Spade, Card RA Heart] [] = Inr (- 1, not_complete_text)"
    by (simp add: get_hand_strength_def)
  have D: "hand_name 0 \<noteq> not_complete_text"
    by (simp add: hand_name_def not_complete_text_def)
  from A B C D show ?thesis by blast
qed

section \<open>Outs\<close>

lemma collect_improving_filter:
  "collect_improving known cur d
     = Inr (filter (\<lambda>c. cur < fst (projr (evaluate_hand (known @ [c])))) d)"
proof (induction d)
  case Nil
  show ?case by simp
next
  case (Cons c d)
  obtain h where ev: "evaluate_hand (known @ [c]) = Inr h"
    using evaluate_hand_total by blast
  obtain ty key where h: "h = (ty, key)" by (cases h)
  show ?case by (simp add: ev h Cons.IH)
qed

lemma calculate_outs_river:
  "5 \<le> length community \<Longrightarrow>
   calculate_outs rnd hole community
     = Inr \<lparr>outs = 0, immediate_odds = None, improving_cards = None,
            description = river_text\<rparr>"
  by (simp add: calculate_outs_def)

lemma calculate_outs_before_river:
  assumes "length community < 5" and "evaluate_hand (hole @ community) = Inr cur"
    and "imp = filter (\<lambda>c. fst cur < fst (projr (evaluate_hand ((hole @ community) @ [c]))))
                 (remove_cards (hole @ community) Deck)"
  shows "calculate_outs rnd hole community
     = Inr \<lparr>outs = int (length imp),
            immediate_odds = Some (if 0 < length (remove_cards (hole @ community) Deck)
              then rnd (real (length imp) / real (length (remove_cards (hole @ community) Deck)))
              else 0),
            improving_cards = Some (take 10 imp),
            description = outs_text (length imp)\<rparr>"
proof -
  obtain ty key where c: "cur = (ty, key)" by (cases cur)
  have ci: "collect_improving (hole @ community) ty (remove_cards (hole @ community) Deck)
      = Inr imp"
    by (simp add: collect_improving_filter assms(3) c)
  show ?thesis
    using assms(1)
    by (simp add: calculate_outs_def Let_def assms(2) c ci true_div_def)
qed

lemma improving_count:
  "length (filter P (remove_cards known Deck)) = card {c. c \<notin> set known \<and> P c}"
proof -
  have "distinct (remove_cards known Deck)" by (rule remove_cards_distinct[OF Deck_distinct])
  then have "length (filter P (remove_cards known Deck))
      = card ({c. P c} \<inter> set (remove_cards known Deck))"
    by (rule distinct_length_filter)
  also have "{c. P c} \<inter> set (remove_cards known Deck) = {c. c \<notin> set known \<and> P c}"
    by (auto simp: remove_cards_set Deck_UNIV)
  finally show ?thesis .
qed

text \<open>
  C5 (as stated, refuted). On a complete board of five community cards the result
  holds the count 0 and the description only; the probability and the sample of
  improving cards are not set.
\<close>

theorem calculate_outs_river_counterexample:
  "calculate_outs id [Card RA Spade, Card RA Heart]
     [Card RK Spade, Card RQ Spade, Card RJ Spade, Card R10 Spade, Card R2 Heart]
   = Inr \<lparr>outs = 0, immediate_odds = None, improving_cards = None,
          description = river_text\<rparr>"
  by (simp add: calculate_outs_def)

text \<open>
  C5 (amended). With fewer than five community cards \<open>calculate_outs\<close> returns all four
  fields: the number of improving cards, the probability (the rounded quotient of that
  number by the size of the remaining deck, 0 when the deck is empty), the first ten
  improving cards at most, and the description with the number. With five or more
  community cards it returns the count 0 and the description for the river, and neither
  a probability nor a sample.
\<close>

theorem calculate_outs_fields:
  "(5 \<le> length community \<longrightarrow>
      calculate_outs rnd hole community
        = Inr \<lparr>outs = 0, immediate_odds = None, improving_cards = None,
               description = river_text\<rparr>)
   \<and> (length community < 5 \<longrightarrow>
        (\<exists>r imp. calculate_outs rnd hole community = Inr r
           \<and> outs r = int (length imp)
           \<and> immediate_odds r
               = Some (if 0 < length (remove_cards (hole @ community) Deck)
                       then rnd (real_of_int (outs r)
                              / real (length (remove_cards (hole @ community) Deck)))
                       else 0)
           \<and> improving_cards r = Some (take 10 imp)
           \<and> set imp \<subseteq> set (remove_cards (hole @ community) Deck)
           \<and> description r = outs_text (length imp)))"
proof (intro conjI impI)
  assume "5 \<le> length community"
  then show "calculate_outs rnd hole community
        = Inr \<lparr>outs = 0, immediate_odds = None, improving_cards = None,
               description = river_text\<rparr>" by (rule calculate_outs_river)
next
  assume less: "length community < 5"
  obtain cur where ev: "evaluate_hand (hole @ community) = Inr cur"
    using evaluate_hand_total by blast
  define imp where
    "imp = filter (\<lambda>c. fst cur < fst (projr (evaluate_hand ((hole @ community) @ [c]))))
             (remove_cards (hole @ community) Deck)"
  let ?d = "remove_cards (hole @ community) Deck"
  let ?r = "\<lparr>outs = int (length imp),
            immediate_odds = Some (if 0 < length ?d
              then rnd (real (length imp) / real (length ?d)) else 0),
            improving_cards = Some (take 10 imp),
            description = outs_text (length imp)\<rparr>"
  have R: "calculate_outs rnd hole community = Inr ?r"
    using less ev imp_def by (rule calculate_outs_before_river)
  show "\<exists>r imp. calculate_outs rnd hole community = Inr r
           \<and> outs r = int (length imp)
           \<and> immediate_odds r
               = Some (if 0 < length ?d
                       then rnd (real_of_int (outs r) / real (length ?d)) else 0)
           \<and> improving_cards r = Some (take 10 imp)
           \<and> set imp \<subseteq> set ?d
           \<and> description r = outs_text (length imp)"
  proof (intro exI conjI)
    show "calculate_outs rnd hole community = Inr ?r" by (rule R)
    show "outs ?r = int (length imp)" by simp
    show "immediate_odds ?r = Some (if 0 < length ?d
            then rnd (real_of_int (outs ?r) / real (length ?d)) else 0)" by simp
    show "improving_cards ?r = Some (take 10 imp)" by simp
    show "set imp \<subseteq> set ?d" by (auto simp: imp_def)
    show "description ?r = outs_text (length imp)" by simp
  qed
qed

text \<open>A board of five cards, and pocket aces with a flop.\<close>

theorem calculate_outs_fields_witness:
  "calculate_outs id [Card RA Spade, Card RA Heart]
     [Card RK Club, Card RQ Club, Card RJ Club, Card R9 Club, Card R2 Heart]
     = Inr \<lparr>outs = 0, immediate_odds = None, improving_cards = None,
            description = river_text\<rparr>
   \<and> (\<exists>r odds cards. calculate_outs id [Card RA Spade, Card RA Heart]
          [Card RK Club, Card RQ Club, Card R2 Heart] = Inr r
        \<and> immediate_odds r = Some odds \<and> improving_cards r = Some cards
        \<and> length cards \<le> 10)"
proof -
  let ?h = "[Card RA Spade, Card RA Heart]"
  let ?b = "[Card RK Club, Card RQ Club, Card RJ Club, Card R9 Club, Card R2 Heart]"
  let ?f = "[Card RK Club, Card RQ Club, Card R2 Heart]"
  have 1: "5 \<le> length ?b" by simp
  have 2: "length ?f < 5" by simp
  from calculate_outs_fields[of ?b id ?h] 1
  have A: "calculate_outs id ?h ?b
     = Inr \<lparr>outs = 0, immediate_odds = None, improving_cards = None,
            description = river_text\<rparr>" by blast
  from calculate_outs_fields[of ?f id ?h] 2
  obtain r imp where r: "calculate_outs id ?h ?f = Inr r"
    "improving_cards r = Some (take 10 imp)"
    "immediate_odds r
       = Some (if 0 < length (remove_cards (?h @ ?f) Deck)
               then id (real_of_int (outs r) / real (length (remove_cards (?h @ ?f) Deck)))
               else 0)"
    by blast
  have "length (take 10 imp) \<le> 10" by simp
  with r have B: "\<exists>r odds cards. calculate_outs id ?h ?f = Inr r
        \<and> immediate_odds r = Some odds \<and> improving_cards r = Some cards
        \<and> length cards \<le> 10" by blast
  from A B show ?thesis by blast
qed

section \<open>Which cards count as outs\<close>

text \<open>
  What the loop of \<open>calculate_outs\<close> computes with fewer than five community cards: the
  improving cards are the cards of the remaining deck, in the deck's order, for which
  the hand type that \<open>evaluate_hand\<close> returns for hole, community and that card is
  strictly greater than the hand type it returns for hole and community; the number of
  outs is the number of the cards outside hole and community with that property.
\<close>

lemma calculate_outs_improving:
  assumes "length community < 5"
  shows "\<exists>r cur imp. calculate_outs rnd hole community = Inr r
     \<and> evaluate_hand (hole @ community) = Inr cur
     \<and> imp = filter (\<lambda>c. fst cur < fst (projr (evaluate_hand (hole @ community @ [c]))))
               (remove_cards (hole @ community) Deck)
     \<and> improving_cards r = Some (take 10 imp)
     \<and> outs r = int (length imp)
     \<and> outs r = int (card {c. c \<notin> set (hole @ community)
                    \<and> fst cur < fst (projr (evaluate_hand (hole @ community @ [c])))})"
proof -
  obtain cur where ev: "evaluate_hand (hole @ community) = Inr cur"
    using evaluate_hand_total by blast
  define imp where
    "imp = filter (\<lambda>c. fst cur < fst (projr (evaluate_hand ((hole @ community) @ [c]))))
             (remove_cards (hole @ community) Deck)"
  let ?d = "remove_cards (hole @ community) Deck"
  let ?r = "\<lparr>outs = int (length imp),
            immediate_odds = Some (if 0 < length ?d
              then rnd (real (length imp) / real (length ?d)) else 0),
            improving_cards = Some (take 10 imp),
            description = outs_text (length imp)\<rparr>"
  have R: "calculate_outs rnd hole community = Inr ?r"
    using assms ev imp_def by (rule calculate_outs_before_river)
  have I: "imp = filter (\<lambda>c. fst cur < fst (projr (evaluate_hand (hole @ community @ [c]))))
               (remove_cards (hole @ community) Deck)"
    by (simp add: imp_def)
  have N: "length imp = card {c. c \<notin> set (hole @ community)
                    \<and> fst cur < fst (projr (evaluate_hand (hole @ community @ [c])))}"
    unfolding I by (rule improving_count)
  show ?thesis
  proof (intro exI conjI)
    show "calculate_outs rnd hole community = Inr ?r" by (rule R)
    show "evaluate_hand (hole @ community) = Inr cur" by (rule ev)
    show "imp = filter (\<lambda>c. fst cur < fst (projr (evaluate_hand (hole @ community @ [c]))))
               (remove_cards (hole @ community) Deck)" by (rule I)
    show "improving_cards ?r = Some (take 10 imp)" by simp
    show "outs ?r = int (length imp)" by simp
    show "outs ?r = int (card {c. c \<notin> set (hole @ community)
                    \<and> fst cur < fst (projr (evaluate_hand (hole @ community @ [c])))})"
      using N by simp
  qed
qed

text \<open>
  With five known cards the hand types are those of evaluated hands. Ace, king of spades
  with queen, jack of spades and the two of hearts on the flop is a high-card hand; the
  26 outs are the nine remaining spades, the three other tens, and the cards that pair
  the ace, king, queen, jack or two. The sample holds the first ten in the order of the
  deck.
\<close>

lemma calculate_outs_flop_example:
  "\<exists>r. calculate_outs id [Card RA Spade, Card RK Spade]
          [Card RQ Spade, Card RJ Spade, Card R2 Heart] = Inr r
     \<and> outs r = 26
     \<and> improving_cards r = Some [Card R2 Spade, Card R3 Spade, Card R4 Spade, Card R5 Spade,
          Card R6 Spade, Card R7 Spade, Card R8 Spade, Card R9 Spade, Card R10 Spade,
          Card R10 Heart]"
proof -
  let ?h = "[Card RA Spade, Card RK Spade]"
  let ?f = "[Card RQ Spade, Card RJ Spade, Card R2 Heart]"
  have 1: "length ?f < 5" by simp
  have ev: "evaluate_hand (?h @ ?f) = Inr (0, [12, 11, 10, 9, 0])" by code_simp
  have L: "length (filter (\<lambda>c. 0 < fst (projr (evaluate_hand (?h @ ?f @ [c]))))
               (remove_cards (?h @ ?f) Deck)) = 26" by code_simp
  have S: "take 10 (filter (\<lambda>c. 0 < fst (projr (evaluate_hand (?h @ ?f @ [c]))))
               (remove_cards (?h @ ?f) Deck))
      = [Card R2 Spade, Card R3 Spade, Card R4 Spade, Card R5 Spade,
          Card R6 Spade, Card R7 Spade, Card R8 Spade, Card R9 Spade, Card R10 Spade,
          Card R10 Heart]" by code_simp
  from calculate_outs_improving[OF 1, of id ?h]
  obtain r cur imp where
    r: "calculate_outs id ?h ?f = Inr r"
      "evaluate_hand (?h @ ?f) = Inr cur"
      "imp = filter (\<lambda>c. fst cur < fst (projr (evaluate_hand (?h @ ?f @ [c]))))
               (remove_cards (?h @ ?f) Deck)"
      "improving_cards r = Some (take 10 imp)"
      "outs r = int (length imp)" by blast
  have "cur = (0, [12, 11, 10, 9, 0])" using r(2) ev by simp
  then have imp: "imp = filter (\<lambda>c. 0 < fst (projr (evaluate_hand (?h @ ?f @ [c]))))
               (remove_cards (?h @ ?f) Deck)" unfolding r(3) by (simp only: fst_conv)
  have "outs r = 26" unfolding r(5) imp L by simp
  moreover have "improving_cards r = Some [Card R2 Spade, Card R3 Spade, Card R4 Spade,
          Card R5 Spade, Card R6 Spade, Card R7 Spade, Card R8 Spade, Card R9 Spade,
          Card R10 Spade, Card R10 Heart]" unfolding r(4) imp S by (rule refl)
  ultimately show ?thesis using r(1) by blast
qed

text \<open>
  C6. The claim counts a card as an out only when it lifts the best category of the
  hand. With pocket aces and king, queen of clubs as the only community cards, four
  cards are known: \<open>evaluate_hand\<close> returns hand type 0 for them, as for every list of
  fewer than five cards, and \<open>calculate_outs\<close> takes that 0 as the current hand type
  (\<open>get_hand_strength\<close> reports the same cards as not yet a complete hand). Every one of
  the 48 remaining cards then counts as an out, with probability 1, although 40 of them
  leave the hand at the pair of aces it already holds (the two of diamonds is one);
  only the two aces, three kings and three queens left in the deck lift it further.
  Before the flop, with two known cards, no card counts as an out.
\<close>

theorem outs_with_four_known_cards:
  "(\<exists>r. calculate_outs id [Card RA Spade, Card RA Heart] [Card RK Club, Card RQ Club] = Inr r
        \<and> outs r = 48 \<and> immediate_odds r = Some 1)
   \<and> length (remove_cards [Card RA Spade, Card RA Heart, Card RK Club, Card RQ Club] Deck) = 48
   \<and> evaluate_hand [Card RA Spade, Card RA Heart, Card RK Club, Card RQ Club] = Inr (0, [])
   \<and> get_hand_strength [Card RA Spade, Card RA Heart] [Card RK Club, Card RQ Club]
         = Inr (- 1, not_complete_text)
   \<and> evaluate_hand [Card RA Spade, Card RA Heart, Card RK Club, Card RQ Club, Card R2 Diamond]
         = Inr (1, [12, 11, 10, 0])
   \<and> length (filter (\<lambda>c. fst (projr (evaluate_hand
                [Card RA Spade, Card RA Heart, Card RK Club, Card RQ Club, c])) = 1)
         (remove_cards [Card RA Spade, Card RA Heart, Card RK Club, Card RQ Club] Deck)) = 40
   \<and> length (filter (\<lambda>c. fst (projr (evaluate_hand
                [Card RA Spade, Card RA Heart, Card RK Club, Card RQ Club, c])) > 1)
         (remove_cards [Card RA Spade, Card RA Heart, Card RK Club, Card RQ Club] Deck)) = 8
   \<and> (\<exists>r. calculate_outs id [Card RA Spade, Card RA Heart] [] = Inr r \<and> outs r = 0)"
proof -
  let ?h = "[Card RA Spade, Card RA Heart]"
  let ?c = "[Card RK Club, Card RQ Club]"
  let ?k = "[Card RA Spade, Card RA Heart, Card RK Club, Card RQ Club]"
  have less: "length ?c < 5" by simp
  have ev: "evaluate_hand (?h @ ?c) = Inr (0, [])" by (simp add: evaluate_hand_def)
  define imp where
    "imp = filter (\<lambda>c. fst (0::int, [] :: int list)
                    < fst (projr (evaluate_hand ((?h @ ?c) @ [c]))))
             (remove_cards (?h @ ?c) Deck)"
  have Limp: "length imp = 48" unfolding imp_def by code_simp
  have D: "length (remove_cards (?h @ ?c) Deck) = 48" by code_simp
  have "calculate_outs id ?h ?c
      = Inr \<lparr>outs = 48, immediate_odds = Some 1, improving_cards = Some (take 10 imp),
             description = outs_text 48\<rparr>"
    unfolding calculate_outs_before_river[OF less ev imp_def, of id] Limp D by simp
  then have A: "\<exists>r. calculate_outs id ?h ?c = Inr r \<and> outs r = 48
      \<and> immediate_odds r = Some 1" by simp
  have B: "length (remove_cards ?k Deck) = 48" by code_simp
  have C: "evaluate_hand ?k = Inr (0, [])" by (simp add: evaluate_hand_def)
  have G: "get_hand_strength ?h ?c = Inr (- 1, not_complete_text)"
    by (simp add: get_hand_strength_def)
  have E: "evaluate_hand [Card RA Spade, Card RA Heart, Card RK Club, Card RQ Club,
      Card R2 Diamond] = Inr (1, [12, 11, 10, 0])" by code_simp
  have F: "length (filter (\<lambda>c. fst (projr (evaluate_hand
                [Card RA Spade, Card RA Heart, Card RK Club, Card RQ Club, c])) = 1)
         (remove_cards ?k Deck)) = 40" by code_simp
  have H: "length (filter (\<lambda>c. fst (projr (evaluate_hand
                [Card RA Spade, Card RA Heart, Card RK Club, Card RQ Club, c])) > 1)
         (remove_cards ?k Deck)) = 8" by code_simp
  have less0: "length ([] :: card list) < 5" by simp
  have ev0: "evaluate_hand (?h @ []) = Inr (0, [])" by (simp add: evaluate_hand_def)
  have three: "evaluate_hand ((?h @ []) @ [c]) = Inr (0, [])" for c
    by (simp add: evaluate_hand_def)
  define imp0 where
    "imp0 = filter (\<lambda>c. fst (0::int, [] :: int list)
                    < fst (projr (evaluate_hand ((?h @ []) @ [c]))))
             (remove_cards (?h @ []) Deck)"
  have "imp0 = []" unfolding imp0_def by (simp only: three) simp
  with calculate_outs_before_river[OF less0 ev0 imp0_def, of id]
  have P: "\<exists>r. calculate_outs id ?h [] = Inr r \<and> outs r = 0" by simp
  from A B C G E F H P show ?thesis by (intro conjI)
qed

end
